theory Spec2Isabelle
  imports Main "HOL-Library.Word"
begin

section \<open>Zone partitioning (common/types, common/partition)\<close>

subsection \<open>Zone names, statuses and partitions\<close>

text \<open>
  \<^verbatim>\<open>type ZoneName string\<close>, \<^verbatim>\<open>type ZoneStatus int\<close> with the three constants
  numbered by \<^verbatim>\<open>iota\<close>. A status is any Go \<^verbatim>\<open>int\<close>; only equality with the
  constants is ever tested.
\<close>

type_synonym ZoneName = string
type_synonym ZoneStatus = int

definition ZoneDrainStatusInvalid :: ZoneStatus where
  "ZoneDrainStatusInvalid = 0"

definition ZoneDrainStatusHealthy :: ZoneStatus where
  "ZoneDrainStatusHealthy = 1"

definition ZoneDrainStatusDrained :: ZoneStatus where
  "ZoneDrainStatusDrained = 2"

record ZonePartition =
  Name :: ZoneName
  Status :: ZoneStatus

subsection \<open>Errors and panics\<close>

text \<open>
  An \<open>error\<close> is a value a function returns in its \<^verbatim>\<open>error\<close> result. \<open>Wrapped msg e\<close> is
  \<^verbatim>\<open>fmt.Errorf(msg + ": %w", e)\<close>. \<open>External msg\<close> is an error produced by a collaborator
  that is reached through an interface (domain cache, drain store, task store, lease renewal).
  A \<open>panic\<close> is a run-time panic of the Go program: the call does not return.
\<close>

datatype error =
    External string
  | Wrapped string error
  | UnmarshalTypeError string
  | SyntaxError
  | InvalidBlockState
  | errShutdown
  | ServiceBusyError string

datatype panic =
    IntegerDivideByZero
  | IndexOutOfRange
  | CloseOfClosedChannel
  | MakeChanSizeOutOfRange

subsection \<open>The zone-state handler\<close>

text \<open>
  \<^verbatim>\<open>DefaultZoneStateHandler\<close>. Its collaborators are interfaces whose implementations are
  not part of the handler: the dynamic-config predicate, the domain cache (of which only
  \<^verbatim>\<open>GetDomain(domain).GetInfo().ZoneConfig\<close> is read) and the global drain store. Each is a
  field holding the answer the collaborator gives; a Go map is a partial function.
\<close>

record DefaultZoneStateHandler =
  zonalPartitioningEnabled :: "string \<Rightarrow> bool"
  domainCache_GetDomain :: "string \<Rightarrow> error + (ZoneName \<rightharpoonup> ZonePartition)"
  globalZoneDrains_GetClusterDrains :: "error + (ZoneName \<rightharpoonup> ZonePartition)"
  allZonesList :: "ZoneName list"

definition Get :: "DefaultZoneStateHandler \<Rightarrow> string \<Rightarrow> ZoneName \<Rightarrow> error + ZonePartition" where
  "Get z domain zone =
    (if \<not> zonalPartitioningEnabled z domain
     then Inr \<lparr>Name = zone, Status = ZoneDrainStatusHealthy\<rparr>
     else
       (case domainCache_GetDomain z domain of
          Inl err \<Rightarrow> Inl (Wrapped ''could not resolve domain in zone handler'' err)
        | Inr zoneConfig \<Rightarrow>
            (case zoneConfig zone of
               Some cfg \<Rightarrow>
                 if Status cfg = ZoneDrainStatusDrained then Inr cfg
                 else
                   (case globalZoneDrains_GetClusterDrains z of
                      Inl err \<Rightarrow>
                        Inl (Wrapped ''could not resolve global drains in zone handler'' err)
                    | Inr drains \<Rightarrow>
                        (case drains zone of
                           Some globalCfg \<Rightarrow> Inr globalCfg
                         | None \<Rightarrow> Inr \<lparr>Name = zone, Status = ZoneDrainStatusHealthy\<rparr>))
             | None \<Rightarrow>
                 (case globalZoneDrains_GetClusterDrains z of
                    Inl err \<Rightarrow>
                      Inl (Wrapped ''could not resolve global drains in zone handler'' err)
                  | Inr drains \<Rightarrow>
                      (case drains zone of
                         Some globalCfg \<Rightarrow> Inr globalCfg
                       | None \<Rightarrow> Inr \<lparr>Name = zone, Status = ZoneDrainStatusHealthy\<rparr>)))))"

text \<open>
  \<^verbatim>\<open>ListAll\<close>: the \<^verbatim>\<open>range\<close> loop over \<^verbatim>\<open>allZonesList\<close>, with the slice \<^verbatim>\<open>out\<close> as
  accumulator. The first failing \<^verbatim>\<open>Get\<close> returns \<^verbatim>\<open>nil\<close> and the wrapped error.
\<close>

fun ListAll_loop ::
  "DefaultZoneStateHandler \<Rightarrow> string \<Rightarrow> ZoneName list \<Rightarrow> ZonePartition list
    \<Rightarrow> error + ZonePartition list" where
  "ListAll_loop z domainID [] out = Inr out"
| "ListAll_loop z domainID (zone # zones) out =
    (case Get z domainID zone of
       Inl err \<Rightarrow> Inl (Wrapped ''failed to get zone during listing'' err)
     | Inr zoneData \<Rightarrow> ListAll_loop z domainID zones (out @ [zoneData]))"

definition ListAll :: "DefaultZoneStateHandler \<Rightarrow> string \<Rightarrow> error + ZonePartition list" where
  "ListAll z domainID = ListAll_loop z domainID (allZonesList z) []"

subsection \<open>The partition hint\<close>

text \<open>
  \<^verbatim>\<open>DefaultPartitionConfig\<close> with its JSON tags \<^verbatim>\<open>wf-start-zone\<close> and \<^verbatim>\<open>run-id\<close>.
\<close>

record DefaultPartitionConfig =
  WorkflowStartZone :: ZoneName
  RunID :: string

text \<open>
  The hint is a byte string handed to \<^verbatim>\<open>json.Unmarshal\<close>. The model takes the hint as the
  JSON document the bytes denote, \<open>None\<close> when they are not valid JSON (the library then
  returns a syntax error before it touches the struct), and follows the library's rules for
  storing a document into this struct:
  \<^item> \<^verbatim>\<open>null\<close> at the top leaves the struct at its zero value, without error;
  \<^item> an object is read key by key, in order; a key selects the field whose tag it equals,
    or else the field whose tag it equals after the library's case folding \<open>foldName\<close>; a key
    that selects no field is skipped;
  \<^item> a string value is stored in the selected field (a later duplicate overwrites), a
    \<^verbatim>\<open>null\<close> value leaves the field as it is, any other value leaves the field as it is
    and records a type error; decoding goes on and the first recorded error is returned;
  \<^item> any other document at the top is a type error.
  The folding function is a parameter: the statements below hold for every folding.
\<close>

datatype json =
    JNull
  | JBool bool
  | JNumber string
  | JString string
  | JArray "json list"
  | JObject "(string \<times> json) list"

datatype field = WorkflowStartZone_field | RunID_field

definition field_of_key :: "(string \<Rightarrow> string) \<Rightarrow> string \<Rightarrow> field option" where
  "field_of_key foldName k =
    (if k = ''wf-start-zone'' then Some WorkflowStartZone_field
     else if k = ''run-id'' then Some RunID_field
     else if foldName k = foldName ''wf-start-zone'' then Some WorkflowStartZone_field
     else if foldName k = foldName ''run-id'' then Some RunID_field
     else None)"

definition set_field :: "field \<Rightarrow> string \<Rightarrow> DefaultPartitionConfig \<Rightarrow> DefaultPartitionConfig" where
  "set_field f s pd =
    (case f of
       WorkflowStartZone_field \<Rightarrow> pd\<lparr>WorkflowStartZone := s\<rparr>
     | RunID_field \<Rightarrow> pd\<lparr>RunID := s\<rparr>)"

text \<open>
  One pass over the members of an object: the struct so far and the first recorded error.
\<close>

fun Unmarshal_object ::
  "(string \<Rightarrow> string) \<Rightarrow> (string \<times> json) list \<Rightarrow> DefaultPartitionConfig \<Rightarrow> error option
    \<Rightarrow> DefaultPartitionConfig \<times> error option" where
  "Unmarshal_object foldName [] pd saved = (pd, saved)"
| "Unmarshal_object foldName ((k, v) # kvs) pd saved =
    (case field_of_key foldName k of
       None \<Rightarrow> Unmarshal_object foldName kvs pd saved
     | Some f \<Rightarrow>
         (case v of
            JString s \<Rightarrow> Unmarshal_object foldName kvs (set_field f s pd) saved
          | JNull \<Rightarrow> Unmarshal_object foldName kvs pd saved
          | _ \<Rightarrow>
              Unmarshal_object foldName kvs pd
                (case saved of None \<Rightarrow> Some (UnmarshalTypeError k) | Some e \<Rightarrow> Some e)))"

definition Unmarshal ::
  "(string \<Rightarrow> string) \<Rightarrow> json option \<Rightarrow> DefaultPartitionConfig \<Rightarrow> error + DefaultPartitionConfig"
  where
  "Unmarshal foldName key pd =
    (case key of
       None \<Rightarrow> Inl SyntaxError
     | Some JNull \<Rightarrow> Inr pd
     | Some (JObject kvs) \<Rightarrow>
         (case Unmarshal_object foldName kvs pd None of
            (pd', None) \<Rightarrow> Inr pd'
          | (pd', Some e) \<Rightarrow> Inl e)
     | Some _ \<Rightarrow> Inl (UnmarshalTypeError ''''))"

subsection \<open>The partitioner\<close>

text \<open>
  Go's \<^verbatim>\<open>%\<close> on integers truncates towards zero: the remainder has the sign of the
  dividend. A zero divisor panics and is tested before this is used.
\<close>

definition go_rem :: "int \<Rightarrow> int \<Rightarrow> int" where
  "go_rem a b = sgn a * (\<bar>a\<bar> mod \<bar>b\<bar>)"

text \<open>
  \<^verbatim>\<open>pickZoneAfterDrain\<close>. The hash \<^verbatim>\<open>farm.Hash32\<close> is a library function and a parameter
  here. \<^verbatim>\<open>int(hashv)\<close> converts the \<^verbatim>\<open>uint32\<close> to Go's \<^verbatim>\<open>int\<close>, taken as 64 bits wide
  (the platforms the service is built for): zero extension to 64 bits, read as a signed
  value. \<^verbatim>\<open>len\<close> of a slice is a non-negative \<^verbatim>\<open>int\<close>. A remainder by zero and an index
  out of range are panics.
\<close>

fun availableZones_loop :: "ZonePartition list \<Rightarrow> ZoneName list \<Rightarrow> ZoneName list" where
  "availableZones_loop [] availableZones = availableZones"
| "availableZones_loop (zone # zones) availableZones =
    (if Status zone = ZoneDrainStatusHealthy
     then availableZones_loop zones (availableZones @ [Name zone])
     else availableZones_loop zones availableZones)"

definition pickZoneAfterDrain ::
  "(string \<Rightarrow> 32 word) \<Rightarrow> ZonePartition list \<Rightarrow> DefaultPartitionConfig \<Rightarrow> panic + ZoneName"
  where
  "pickZoneAfterDrain Hash32 zones wfConfig =
    (let availableZones = availableZones_loop zones [];
         hashv = Hash32 (RunID wfConfig);
         n = int (length availableZones)
     in if n = 0 then Inl IntegerDivideByZero
        else
          (let i = go_rem (sint (ucast hashv :: 64 word)) n
           in if i < 0 \<or> n \<le> i then Inl IndexOutOfRange
              else Inr (availableZones ! nat i)))"

text \<open>
  \<^verbatim>\<open>DefaultPartitioner\<close>: its \<^verbatim>\<open>drainState\<close> is the zone-state handler above (the one
  implementation of \<^verbatim>\<open>ZoneState\<close> in the package).
\<close>

record DefaultPartitioner =
  drainState :: DefaultZoneStateHandler

definition IsDrained :: "DefaultPartitioner \<Rightarrow> string \<Rightarrow> ZoneName \<Rightarrow> error + bool" where
  "IsDrained r domain zone =
    (case Get (drainState r) domain zone of
       Inl err \<Rightarrow> Inl (Wrapped ''could not determine if drained'' err)
     | Inr state \<Rightarrow> Inr (Status state = ZoneDrainStatusDrained))"

text \<open>
  \<^verbatim>\<open>GetTaskZone\<close>: the result is a panic, or the returned pair as a sum (the error, or the
  zone name the returned pointer refers to).
\<close>

definition GetTaskZone ::
  "(string \<Rightarrow> string) \<Rightarrow> (string \<Rightarrow> 32 word) \<Rightarrow> DefaultPartitioner \<Rightarrow> string \<Rightarrow> json option
    \<Rightarrow> panic + error + ZoneName" where
  "GetTaskZone foldName Hash32 r DomainID key =
    (case Unmarshal foldName key \<lparr>WorkflowStartZone = '''', RunID = ''''\<rparr> of
       Inl err \<Rightarrow> Inr (Inl (Wrapped ''failed to decode partition config'' err))
     | Inr partitionData \<Rightarrow>
         (case IsDrained r DomainID (WorkflowStartZone partitionData) of
            Inl err \<Rightarrow> Inr (Inl (Wrapped ''failed to determine if a zone is drained'' err))
          | Inr isDrained \<Rightarrow>
              if isDrained then
                (case ListAll (drainState r) DomainID of
                   Inl err \<Rightarrow> Inr (Inl (Wrapped ''failed to list all zones'' err))
                 | Inr zones \<Rightarrow>
                     (case pickZoneAfterDrain Hash32 zones partitionData of
                        Inl p \<Rightarrow> Inl p
                      | Inr zone \<Rightarrow> Inr (Inr zone)))
              else Inr (Inr (WorkflowStartZone partitionData))))"

section \<open>Task writer (service/matching/taskWriter.go)\<close>

subsection \<open>Data\<close>

text \<open>
  Task IDs, range IDs and the \<^verbatim>\<open>stopped\<close> flag are \<^verbatim>\<open>int64\<close>: 64-bit words, compared
  as signed values (\<open>sint\<close>), with \<open>+\<close>, \<open>-\<close> and \<open>*\<close> wrapping around as Go's do.
\<close>

type_synonym int64 = "64 word"

record taskIDBlock =
  start :: int64
  end_id :: int64

record taskListState =
  rangeID :: int64
  ackLevel :: int64

record writeTaskRequest =
  execution :: string
  taskInfo :: string
  responseCh :: nat

datatype CreateTasksResponse = CreateTasksResponse

record writeTaskResponse =
  err :: "error option"
  persistenceResponse :: "CreateTasksResponse option"

record CreateTaskInfo =
  TaskID :: int64
  Execution :: string
  Data :: string

text \<open>
  The configuration read by the writer. \<^verbatim>\<open>MaxTaskBatchSize\<close> is a dynamic property read at
  every test of the batching loop; it is taken as constant while one batch is read.
\<close>

record taskListConfig =
  RangeSize :: int64
  MaxTaskBatchSize :: int
  OutstandingTaskAppendsThreshold :: int

text \<open>
  The collaborators of the writer, reached through \<^verbatim>\<open>w.db\<close> and \<^verbatim>\<open>w.handleErr\<close>:
  \<^item> \<open>RenewLease_outcome n\<close> is how the \<open>n\<close>-th lease renewal ends once
    \<^verbatim>\<open>throttleRetry.Do\<close> has finished retrying it: an error, or the ack level stored
    with the renewed lease;
  \<^item> \<open>CreateTasks\<close> is the task store's answer to a batch, the pair Go returns;
  \<^item> \<open>handleErr\<close> is the task-list manager's hook every commit error passes through.
\<close>

record taskWriterEnv =
  RenewLease_outcome :: "nat \<Rightarrow> error + int64"
  CreateTasks :: "CreateTaskInfo list \<Rightarrow> CreateTasksResponse option \<times> error option"
  handleErr :: "error option \<Rightarrow> error option"

text \<open>
  \<^verbatim>\<open>taskWriter\<close>, with the state of what it acts on:
  \<^item> \<open>appendCh\<close> is the content of the buffered channel, oldest request first, and
    \<open>appendCh_cap\<close> its capacity, fixed when the channel is made;
  \<^item> \<open>stopCh_closed\<close> says whether \<^verbatim>\<open>stopCh\<close> has been closed;
  \<^item> \<open>db_rangeID\<close> is \<^verbatim>\<open>w.db.RangeID()\<close>, the range ID the task-list database caches,
    and \<open>db_renewals\<close> the number of lease renewals finished so far;
  \<^item> \<open>taskAckManager_ackLevel\<close> is the level last given to \<^verbatim>\<open>SetAckLevel\<close>;
  \<^item> \<open>tlMgr_stopped\<close> records a call of \<^verbatim>\<open>w.tlMgr.Stop()\<close>;
  \<^item> \<open>db_createTasks\<close> is the history of \<^verbatim>\<open>w.db.CreateTasks\<close> calls: the task IDs of
    each batch handed to the store and the error the call returned;
  \<^item> \<open>sent\<close> is the history of responses sent, each with the channel it was sent on.
\<close>

record taskWriter =
  appendCh :: "writeTaskRequest list"
  appendCh_cap :: nat
  taskIDBlock :: taskIDBlock
  maxReadLevel :: int64
  stopped :: int64
  stopCh_closed :: bool
  db_rangeID :: int64
  db_renewals :: nat
  taskAckManager_ackLevel :: int64
  tlMgr_stopped :: bool
  db_createTasks :: "(int64 list \<times> error option) list"
  sent :: "(nat \<times> writeTaskResponse) list"

subsection \<open>Lease and task-ID blocks\<close>

text \<open>
  Modelled from the spec: the function \<^verbatim>\<open>rangeIDToTaskIDBlock\<close>, which the writer calls
  and taskWriter.go does not define. The spec gives the block of a range ID \<open>k\<close> for range size \<open>R\<close> as
  \<open>start = (k - 1) \<times> R + 1\<close>, \<open>end = k \<times> R\<close>; the arithmetic is \<^verbatim>\<open>int64\<close>.
\<close>

definition rangeIDToTaskIDBlock :: "int64 \<Rightarrow> int64 \<Rightarrow> taskIDBlock" where
  "rangeIDToTaskIDBlock k rangeSize =
    \<lparr>start = (k - 1) * rangeSize + 1, end_id = k * rangeSize\<rparr>"

text \<open>
  Modelled from the spec: the method \<^verbatim>\<open>RenewLease\<close> of the task-list database
  \<^verbatim>\<open>w.db\<close>, which taskWriter.go calls and does not define. The spec describes it as a conditional increment of the range ID: on success the cached
  range ID is one more than before and is returned with the stored ack level; on failure
  the error is returned and the cached range ID stays.
\<close>

definition db_RenewLease :: "taskWriterEnv \<Rightarrow> taskWriter \<Rightarrow> (error + taskListState) \<times> taskWriter"
  where
  "db_RenewLease env w =
    (case RenewLease_outcome env (db_renewals w) of
       Inl e \<Rightarrow> (Inl e, w\<lparr>db_renewals := Suc (db_renewals w)\<rparr>)
     | Inr ack \<Rightarrow>
         (Inr \<lparr>rangeID = db_rangeID w + 1, ackLevel = ack\<rparr>,
          w\<lparr>db_rangeID := db_rangeID w + 1, db_renewals := Suc (db_renewals w)\<rparr>))"

text \<open>
  \<^verbatim>\<open>renewLeaseWithRetry\<close>: the retried operation ends as the environment says; a failure
  stops the task-list manager. The metric counters are not modelled.
\<close>

definition renewLeaseWithRetry ::
  "taskWriterEnv \<Rightarrow> taskWriter \<Rightarrow> (error + taskListState) \<times> taskWriter" where
  "renewLeaseWithRetry env w =
    (case db_RenewLease env w of
       (Inl e, w') \<Rightarrow> (Inl e, w'\<lparr>tlMgr_stopped := True\<rparr>)
     | (Inr newState, w') \<Rightarrow> (Inr newState, w'))"

definition allocTaskIDBlock ::
  "taskListConfig \<Rightarrow> taskWriterEnv \<Rightarrow> int64 \<Rightarrow> taskWriter \<Rightarrow> (error + taskIDBlock) \<times> taskWriter"
  where
  "allocTaskIDBlock cfg env prevBlockEnd w =
    (let currBlock = rangeIDToTaskIDBlock (db_rangeID w) (RangeSize cfg)
     in if end_id currBlock \<noteq> prevBlockEnd then (Inl InvalidBlockState, w)
        else
          (case renewLeaseWithRetry env w of
             (Inl e, w') \<Rightarrow> (Inl e, w')
           | (Inr state, w') \<Rightarrow>
               (Inr (rangeIDToTaskIDBlock (rangeID state) (RangeSize cfg)), w')))"

text \<open>
  \<^verbatim>\<open>allocTaskIDs\<close>: the loop over \<^verbatim>\<open>i\<close>, with the IDs stored so far as accumulator
  (\<^verbatim>\<open>result[0..i-1]\<close>). The writer's state is returned on both exits: an error leaves
  the block as far as the loop has advanced it. \<^verbatim>\<open>count\<close> is the length of a batch.
\<close>

fun allocTaskIDs_loop ::
  "taskListConfig \<Rightarrow> taskWriterEnv \<Rightarrow> nat \<Rightarrow> taskWriter \<Rightarrow> int64 list
    \<Rightarrow> (error + int64 list) \<times> taskWriter" where
  "allocTaskIDs_loop cfg env 0 w result = (Inr result, w)"
| "allocTaskIDs_loop cfg env (Suc n) w result =
    (if end_id (taskIDBlock w) <s start (taskIDBlock w) then
       (case allocTaskIDBlock cfg env (end_id (taskIDBlock w)) w of
          (Inl e, w') \<Rightarrow> (Inl e, w')
        | (Inr newBlock, w') \<Rightarrow>
            allocTaskIDs_loop cfg env n
              (w'\<lparr>taskIDBlock := newBlock\<lparr>start := start newBlock + 1\<rparr>\<rparr>)
              (result @ [start newBlock]))
     else
       allocTaskIDs_loop cfg env n
         (w\<lparr>taskIDBlock := (taskIDBlock w)\<lparr>start := start (taskIDBlock w) + 1\<rparr>\<rparr>)
         (result @ [start (taskIDBlock w)]))"

definition allocTaskIDs ::
  "taskListConfig \<Rightarrow> taskWriterEnv \<Rightarrow> nat \<Rightarrow> taskWriter \<Rightarrow> (error + int64 list) \<times> taskWriter"
  where
  "allocTaskIDs cfg env count w = allocTaskIDs_loop cfg env count w []"

subsection \<open>Construction, start and stop\<close>

text \<open>
  \<^verbatim>\<open>newTaskWriter\<close>: every numeric field is zero, \<^verbatim>\<open>stopCh\<close> is open and \<^verbatim>\<open>appendCh\<close> is
  made with the configured capacity (\<^verbatim>\<open>make\<close> panics on a negative one). The range ID
  the database caches when the writer is made is a parameter.
\<close>

definition newTaskWriter :: "taskListConfig \<Rightarrow> int64 \<Rightarrow> panic + taskWriter" where
  "newTaskWriter cfg dbRangeID =
    (if OutstandingTaskAppendsThreshold cfg < 0 then Inl MakeChanSizeOutOfRange
     else Inr
       \<lparr>appendCh = [],
        appendCh_cap = nat (OutstandingTaskAppendsThreshold cfg),
        taskIDBlock = \<lparr>start = 0, end_id = 0\<rparr>,
        maxReadLevel = 0,
        stopped = 0,
        stopCh_closed = False,
        db_rangeID = dbRangeID,
        db_renewals = 0,
        taskAckManager_ackLevel = 0,
        tlMgr_stopped = False,
        db_createTasks = [],
        sent = []\<rparr>)"

text \<open>
  \<^verbatim>\<open>Start\<close>: the returned error (\<open>None\<close> is \<^verbatim>\<open>nil\<close>) and the writer. On success the
  writer loop is launched; its turns are the function \<open>taskWriterLoop_turn\<close> below.
\<close>

definition Start :: "taskListConfig \<Rightarrow> taskWriterEnv \<Rightarrow> taskWriter \<Rightarrow> error option \<times> taskWriter"
  where
  "Start cfg env w =
    (case renewLeaseWithRetry env w of
       (Inl e, w') \<Rightarrow> (Some e, w')
     | (Inr state, w') \<Rightarrow>
         (let block = rangeIDToTaskIDBlock (rangeID state) (RangeSize cfg)
          in (None,
              w'\<lparr>taskAckManager_ackLevel := ackLevel state,
                 taskIDBlock := block,
                 maxReadLevel := start block - 1\<rparr>)))"

text \<open>
  \<^verbatim>\<open>Stop\<close>: the compare-and-swap of \<^verbatim>\<open>stopped\<close> from 0 to 1 and, when it swapped, the
  \<^verbatim>\<open>close\<close> of \<^verbatim>\<open>stopCh\<close>, which panics on a channel that is closed already.
\<close>

definition Stop :: "taskWriter \<Rightarrow> panic + taskWriter" where
  "Stop w =
    (if stopped w = 0 then
       (if stopCh_closed w then Inl CloseOfClosedChannel
        else Inr (w\<lparr>stopped := 1, stopCh_closed := True\<rparr>))
     else Inr w)"

definition isStopped :: "taskWriter \<Rightarrow> bool" where
  "isStopped w = (stopped w = 1)"

subsection \<open>Appending\<close>

text \<open>
  Modelled from the spec: the function \<^verbatim>\<open>createServiceBusyError\<close>, which taskWriter.go
  calls and does not define; the spec calls its result the \<^verbatim>\<open>overloaded\<close> error, here \<open>ServiceBusyError\<close> with the
  message given.
\<close>

definition createServiceBusyError :: "string \<Rightarrow> error" where
  "createServiceBusyError msg = ServiceBusyError msg"

text \<open>
  What ends the wait of an admitted \<^verbatim>\<open>appendTask\<close>: the response read from its channel,
  or the closed \<^verbatim>\<open>stopCh\<close>.
\<close>

datatype wake = Response writeTaskResponse | StopSignal

text \<open>
  \<^verbatim>\<open>appendTask\<close>: the returned pair and the writer. The send in the \<^verbatim>\<open>select\<close> with a
  \<^verbatim>\<open>default\<close> goes through when the buffer of \<^verbatim>\<open>appendCh\<close> has room, and the request
  then joins the queue; otherwise the \<^verbatim>\<open>default\<close> branch returns at once. This is the
  channel with a buffer, of capacity at least 1, where the buffer has room whenever the
  loop is parked at its receive. The direct hand-over of a channel without buffer
  (capacity 0) to a loop parked at its receive is not represented.
  An admitted call then waits; \<open>wk\<close> is what ends the wait. Its channel \<open>ch\<close> is named by
  a number.
\<close>

definition appendTask ::
  "string \<Rightarrow> string \<Rightarrow> nat \<Rightarrow> wake \<Rightarrow> taskWriter
    \<Rightarrow> (CreateTasksResponse option \<times> error option) \<times> taskWriter" where
  "appendTask exec info ch wk w =
    (if isStopped w then ((None, Some errShutdown), w)
     else
       (let req = \<lparr>execution = exec, taskInfo = info, responseCh = ch\<rparr>
        in if length (appendCh w) < appendCh_cap w then
             (case wk of
                Response r \<Rightarrow>
                  ((persistenceResponse r, err r), w\<lparr>appendCh := appendCh w @ [req]\<rparr>)
              | StopSignal \<Rightarrow>
                  ((None, Some errShutdown), w\<lparr>appendCh := appendCh w @ [req]\<rparr>))
           else
             ((None, Some (createServiceBusyError
                 ''Too many outstanding appends to the TaskList'')), w)))"

definition GetMaxReadLevel :: "taskWriter \<Rightarrow> int64" where
  "GetMaxReadLevel w = maxReadLevel w"

subsection \<open>The writer loop\<close>

text \<open>
  \<^verbatim>\<open>getWriteBatch\<close>: the loop over \<^verbatim>\<open>i\<close> from 0 while \<^verbatim>\<open>i < MaxTaskBatchSize()\<close>; each
  round receives from \<^verbatim>\<open>appendCh\<close> without blocking and leaves the loop when the channel
  is empty. The result is the batch and what is left in the channel.
\<close>

fun getWriteBatch_loop ::
  "int \<Rightarrow> nat \<Rightarrow> writeTaskRequest list \<Rightarrow> writeTaskRequest list
    \<Rightarrow> writeTaskRequest list \<times> writeTaskRequest list" where
  "getWriteBatch_loop maxBatch i [] reqs = (reqs, [])"
| "getWriteBatch_loop maxBatch i (req # ch) reqs =
    (if int i < maxBatch then getWriteBatch_loop maxBatch (Suc i) ch (reqs @ [req])
     else (reqs, req # ch))"

definition getWriteBatch ::
  "taskListConfig \<Rightarrow> writeTaskRequest list \<Rightarrow> taskWriter \<Rightarrow> writeTaskRequest list \<times> taskWriter"
  where
  "getWriteBatch cfg reqs w =
    (case getWriteBatch_loop (MaxTaskBatchSize cfg) 0 (appendCh w) reqs of
       (reqs', ch') \<Rightarrow> (reqs', w\<lparr>appendCh := ch'\<rparr>))"

text \<open>
  \<^verbatim>\<open>sendWriteResponse\<close>: one response per request of the batch, in order, each sent on
  the request's own channel. The sends are recorded in \<open>sent\<close>; that a send waits until
  the caller receives is not modelled.
\<close>

definition sendWriteResponse ::
  "writeTaskRequest list \<Rightarrow> error option \<Rightarrow> CreateTasksResponse option \<Rightarrow> taskWriter \<Rightarrow> taskWriter"
  where
  "sendWriteResponse reqs e r w =
    w\<lparr>sent := sent w @
         map (\<lambda>req. (responseCh req, \<lparr>err = e, persistenceResponse = r\<rparr>)) reqs\<rparr>"

text \<open>
  The body of the loop for a request received from \<^verbatim>\<open>appendCh\<close>. \<open>tasks\<close> and the local
  \<^verbatim>\<open>maxReadLevel\<close> are built by the \<^verbatim>\<open>range\<close> loop over the batch, reading \<^verbatim>\<open>taskIDs[i]\<close>
  (in range: \<^verbatim>\<open>allocTaskIDs\<close> returned \<^verbatim>\<open>batchSize\<close> IDs). The error log line has no
  effect on the state.
\<close>

definition taskWriterLoop_request ::
  "taskListConfig \<Rightarrow> taskWriterEnv \<Rightarrow> writeTaskRequest \<Rightarrow> taskWriter \<Rightarrow> taskWriter" where
  "taskWriterLoop_request cfg env request w =
    (case getWriteBatch cfg [request] w of
       (reqs, w1) \<Rightarrow>
         (let batchSize = length reqs
          in case allocTaskIDs cfg env batchSize w1 of
               (Inl e, w2) \<Rightarrow> sendWriteResponse reqs (Some e) None w2
             | (Inr taskIDs, w2) \<Rightarrow>
                 (let tasks =
                        map (\<lambda>i. \<lparr>TaskID = taskIDs ! i,
                                  Execution = execution (reqs ! i),
                                  Data = taskInfo (reqs ! i)\<rparr>) [0..<length reqs];
                      maxReadLevel' = foldl (\<lambda>m i. taskIDs ! i) 0 [0..<length reqs]
                  in case CreateTasks env tasks of
                       (r, e) \<Rightarrow>
                         (let e' = handleErr env e;
                              w3 = w2\<lparr>db_createTasks := db_createTasks w2 @ [(map TaskID tasks, e)]\<rparr>;
                              w4 = (if 0 <s maxReadLevel' then w3\<lparr>maxReadLevel := maxReadLevel'\<rparr>
                                    else w3)
                          in sendWriteResponse reqs e' r w4))))"

text \<open>
  The same body, with the states the writer is in between its operations, in order: after
  the batch is read; after the task IDs are allocated; and, when the allocation
  succeeded, after \<^verbatim>\<open>CreateTasks\<close> has returned and before the level is stored; after the
  store to \<^verbatim>\<open>maxReadLevel\<close> (or its being skipped); and last, after the responses are
  sent, which is the state \<open>taskWriterLoop_request\<close> returns. Another goroutine that
  reads the level with \<^verbatim>\<open>GetMaxReadLevel\<close> while the body runs reads it in one of these
  states; the steps inside \<^verbatim>\<open>allocTaskIDs\<close> and \<^verbatim>\<open>sendWriteResponse\<close> change neither the
  level nor what the store has been handed.
\<close>

definition taskWriterLoop_request_states ::
  "taskListConfig \<Rightarrow> taskWriterEnv \<Rightarrow> writeTaskRequest \<Rightarrow> taskWriter \<Rightarrow> taskWriter list" where
  "taskWriterLoop_request_states cfg env request w =
    (case getWriteBatch cfg [request] w of
       (reqs, w1) \<Rightarrow>
         (let batchSize = length reqs
          in case allocTaskIDs cfg env batchSize w1 of
               (Inl e, w2) \<Rightarrow> [w1, w2, sendWriteResponse reqs (Some e) None w2]
             | (Inr taskIDs, w2) \<Rightarrow>
                 (let tasks =
                        map (\<lambda>i. \<lparr>TaskID = taskIDs ! i,
                                  Execution = execution (reqs ! i),
                                  Data = taskInfo (reqs ! i)\<rparr>) [0..<length reqs];
                      maxReadLevel' = foldl (\<lambda>m i. taskIDs ! i) 0 [0..<length reqs]
                  in case CreateTasks env tasks of
                       (r, e) \<Rightarrow>
                         (let e' = handleErr env e;
                              w3 = w2\<lparr>db_createTasks := db_createTasks w2 @ [(map TaskID tasks, e)]\<rparr>;
                              w4 = (if 0 <s maxReadLevel' then w3\<lparr>maxReadLevel := maxReadLevel'\<rparr>
                                    else w3)
                          in [w1, w2, w3, w4, sendWriteResponse reqs e' r w4]))))"

text \<open>
  One turn of \<^verbatim>\<open>taskWriterLoop\<close>: the \<^verbatim>\<open>select\<close> receives a request when \<^verbatim>\<open>appendCh\<close>
  holds one, leaves the loop when \<^verbatim>\<open>stopCh\<close> is closed, and waits when neither is ready.
  When both are ready Go picks either; \<open>preferStop\<close> is that pick. The boolean returned
  says whether the loop goes on.
\<close>

definition taskWriterLoop_turn ::
  "taskListConfig \<Rightarrow> taskWriterEnv \<Rightarrow> bool \<Rightarrow> taskWriter \<Rightarrow> bool \<times> taskWriter" where
  "taskWriterLoop_turn cfg env preferStop w =
    (case appendCh w of
       request # ch \<Rightarrow>
         if stopCh_closed w \<and> preferStop then (False, w)
         else (True, taskWriterLoop_request cfg env request (w\<lparr>appendCh := ch\<rparr>))
     | [] \<Rightarrow> if stopCh_closed w then (False, w) else (True, w))"

text \<open>
  The writer over time: what other goroutines do to it (calls of \<^verbatim>\<open>appendTask\<close> and
  \<^verbatim>\<open>Stop\<close>) interleaved with the turns of its loop. \<open>taskWriter_run\<close> lists the states
  passed, the first being the state it starts from, each paired with whether the loop is
  still running. A panic ends the run.
\<close>

datatype event =
    AppendTask string string nat wake
  | StopCall
  | LoopTurn bool

definition taskWriter_step ::
  "taskListConfig \<Rightarrow> taskWriterEnv \<Rightarrow> event \<Rightarrow> bool \<times> taskWriter \<Rightarrow> panic + bool \<times> taskWriter"
  where
  "taskWriter_step cfg env ev s =
    (case s of
       (running, w) \<Rightarrow>
         (case ev of
            AppendTask exec info ch wk \<Rightarrow> Inr (running, snd (appendTask exec info ch wk w))
          | StopCall \<Rightarrow>
              (case Stop w of Inl p \<Rightarrow> Inl p | Inr w' \<Rightarrow> Inr (running, w'))
          | LoopTurn preferStop \<Rightarrow>
              if running then Inr (taskWriterLoop_turn cfg env preferStop w)
              else Inr (running, w)))"

fun taskWriter_run ::
  "taskListConfig \<Rightarrow> taskWriterEnv \<Rightarrow> event list \<Rightarrow> bool \<times> taskWriter \<Rightarrow> (bool \<times> taskWriter) list"
  where
  "taskWriter_run cfg env [] s = [s]"
| "taskWriter_run cfg env (ev # evs) s =
    (case taskWriter_step cfg env ev s of
       Inl p \<Rightarrow> [s]
     | Inr s' \<Rightarrow> s # taskWriter_run cfg env evs s')"

section \<open>Scenarios\<close>

text \<open>
  Concrete inputs the statements below are evaluated at. \<open>example_Hash32\<close> stands in for
  the library hash (any function of the run ID will do where a concrete one is needed).
  \<open>S5_handler\<close> is scenario S5 of the spec: zones a, b, c with b drained globally.
  In \<open>all_drained_handler\<close> every zone is drained globally.
\<close>

definition example_Hash32 :: "string \<Rightarrow> 32 word" where
  "example_Hash32 s = of_nat (length s)"

definition S5_handler :: DefaultZoneStateHandler where
  "S5_handler =
    \<lparr>zonalPartitioningEnabled = (\<lambda>domain. True),
     domainCache_GetDomain = (\<lambda>domain. Inr Map.empty),
     globalZoneDrains_GetClusterDrains =
       Inr [''b'' \<mapsto> \<lparr>Name = ''b'', Status = ZoneDrainStatusDrained\<rparr>],
     allZonesList = [''a'', ''b'', ''c'']\<rparr>"

definition all_drained_handler :: DefaultZoneStateHandler where
  "all_drained_handler =
    \<lparr>zonalPartitioningEnabled = (\<lambda>domain. True),
     domainCache_GetDomain = (\<lambda>domain. Inr Map.empty),
     globalZoneDrains_GetClusterDrains =
       Inr [''a'' \<mapsto> \<lparr>Name = ''a'', Status = ZoneDrainStatusDrained\<rparr>,
            ''b'' \<mapsto> \<lparr>Name = ''b'', Status = ZoneDrainStatusDrained\<rparr>],
     allZonesList = [''a'', ''b'']\<rparr>"

definition hint :: "string \<Rightarrow> string \<Rightarrow> json option" where
  "hint zone run = Some (JObject [(''wf-start-zone'', JString zone), (''run-id'', JString run)])"

text \<open>
  \<open>S6_handler\<close> is scenario S6 of the spec: zonal partitioning is disabled for every domain
  and the global table marks zone x drained. In \<open>override_handler\<close> the domain's own zone
  configuration marks a drained and b healthy, while the global table marks b and c
  drained. In \<open>failing_handler\<close> the domain cache cannot resolve the domain.
\<close>

definition S6_handler :: DefaultZoneStateHandler where
  "S6_handler =
    \<lparr>zonalPartitioningEnabled = (\<lambda>domain. False),
     domainCache_GetDomain = (\<lambda>domain. Inr Map.empty),
     globalZoneDrains_GetClusterDrains =
       Inr [''x'' \<mapsto> \<lparr>Name = ''x'', Status = ZoneDrainStatusDrained\<rparr>],
     allZonesList = [''x'']\<rparr>"

definition override_handler :: DefaultZoneStateHandler where
  "override_handler =
    \<lparr>zonalPartitioningEnabled = (\<lambda>domain. True),
     domainCache_GetDomain =
       (\<lambda>domain. Inr [''a'' \<mapsto> \<lparr>Name = ''a'', Status = ZoneDrainStatusDrained\<rparr>,
                        ''b'' \<mapsto> \<lparr>Name = ''b'', Status = ZoneDrainStatusHealthy\<rparr>]),
     globalZoneDrains_GetClusterDrains =
       Inr [''b'' \<mapsto> \<lparr>Name = ''b'', Status = ZoneDrainStatusDrained\<rparr>,
            ''c'' \<mapsto> \<lparr>Name = ''c'', Status = ZoneDrainStatusDrained\<rparr>],
     allZonesList = [''a'', ''b'', ''c'', ''d'']\<rparr>"

definition failing_handler :: DefaultZoneStateHandler where
  "failing_handler =
    \<lparr>zonalPartitioningEnabled = (\<lambda>domain. True),
     domainCache_GetDomain = (\<lambda>domain. Inl (External ''domain not found'')),
     globalZoneDrains_GetClusterDrains = Inr Map.empty,
     allZonesList = [''a'', ''b'']\<rparr>"

text \<open>
  Writers. \<open>ok_env\<close> renews every lease and commits every batch; in \<open>failing_store_env\<close>
  the store fails every commit; in \<open>lease_lost_env\<close> every lease renewal fails. \<open>S1_writer\<close> and \<open>S2_writer\<close> are the writers of
  scenarios S1 and S2 of the spec after \<open>Start\<close>: range size 10, respectively 2, and the
  first renewal giving range ID 1.
\<close>

definition ok_env :: taskWriterEnv where
  "ok_env =
    \<lparr>RenewLease_outcome = (\<lambda>n. Inr 0),
     CreateTasks = (\<lambda>tasks. (Some CreateTasksResponse, None)),
     handleErr = (\<lambda>e. e)\<rparr>"

definition failing_store_env :: taskWriterEnv where
  "failing_store_env =
    \<lparr>RenewLease_outcome = (\<lambda>n. Inr 0),
     CreateTasks = (\<lambda>tasks. (None, Some (External ''persistence failure''))),
     handleErr = (\<lambda>e. e)\<rparr>"

definition lease_lost_env :: taskWriterEnv where
  "lease_lost_env =
    \<lparr>RenewLease_outcome = (\<lambda>n. Inl (External ''lease lost'')),
     CreateTasks = (\<lambda>tasks. (Some CreateTasksResponse, None)),
     handleErr = (\<lambda>e. e)\<rparr>"

definition S1_cfg :: taskListConfig where
  "S1_cfg = \<lparr>RangeSize = 10, MaxTaskBatchSize = 2, OutstandingTaskAppendsThreshold = 4\<rparr>"

definition S2_cfg :: taskListConfig where
  "S2_cfg = \<lparr>RangeSize = 2, MaxTaskBatchSize = 2, OutstandingTaskAppendsThreshold = 4\<rparr>"

definition S1_writer :: taskWriter where
  "S1_writer = snd (Start S1_cfg ok_env (projr (newTaskWriter S1_cfg 0)))"

definition S2_writer :: taskWriter where
  "S2_writer = snd (Start S2_cfg ok_env (projr (newTaskWriter S2_cfg 0)))"

definition request_on :: "nat \<Rightarrow> writeTaskRequest" where
  "request_on ch = \<lparr>execution = ''E'', taskInfo = ''task'', responseCh = ch\<rparr>"

section \<open>Conditions used in the statements about the writer\<close>

text \<open>
  \<open>no_overflow cfg B w\<close>: the range size is positive, the cached range ID is not
  negative, and the task IDs of the current block and of the blocks of the next \<open>B\<close>
  range IDs stay below the largest \<^verbatim>\<open>int64\<close>, so that none of the \<^verbatim>\<open>int64\<close> operations
  of the next \<open>B\<close> allocations wraps around.
\<close>

definition no_overflow :: "taskListConfig \<Rightarrow> nat \<Rightarrow> taskWriter \<Rightarrow> bool" where
  "no_overflow cfg B w \<longleftrightarrow>
     0 < sint (RangeSize cfg)
     \<and> 0 \<le> sint (db_rangeID w)
     \<and> (sint (db_rangeID w) + int B) * sint (RangeSize cfg) \<le> 2 ^ 63 - 2
     \<and> sint (end_id (taskIDBlock w)) \<le> 2 ^ 63 - 2"

text \<open>
  \<open>frontier w\<close>: the least task ID the writer can still hand out, as an integer: the
  start of its block, or the ID after the end of the block once the block is used up.
\<close>

definition frontier :: "taskWriter \<Rightarrow> int" where
  "frontier w = min (sint (start (taskIDBlock w))) (sint (end_id (taskIDBlock w)) + 1)"

text \<open>
  Successive calls of \<^verbatim>\<open>allocTaskIDs\<close> on one writer, with the counts given: the ID lists
  of the calls that succeed, in the order of the calls. A failing call returns no IDs and
  leaves the writer as far as it got.
\<close>

fun allocTaskIDs_calls ::
  "taskListConfig \<Rightarrow> taskWriterEnv \<Rightarrow> nat list \<Rightarrow> taskWriter \<Rightarrow> int64 list list" where
  "allocTaskIDs_calls cfg env [] w = []"
| "allocTaskIDs_calls cfg env (n # ns) w =
    (case allocTaskIDs cfg env n w of
       (Inl e, w') \<Rightarrow> allocTaskIDs_calls cfg env ns w'
     | (Inr ids, w') \<Rightarrow> ids # allocTaskIDs_calls cfg env ns w')"

text \<open>
  \<open>writer_inv cfg B w\<close>: what holds of a started writer between the steps of a run with
  at most \<open>B\<close> further appends: no allocation for the requests queued and still to come
  wraps around, and the published level is below every ID still to be handed out, which
  are all positive.
\<close>

definition writer_inv :: "taskListConfig \<Rightarrow> nat \<Rightarrow> taskWriter \<Rightarrow> bool" where
  "writer_inv cfg B w \<longleftrightarrow>
     no_overflow cfg (length (appendCh w) + B) w
     \<and> sint (maxReadLevel w) < frontier w
     \<and> 0 < frontier w"

text \<open>
  \<open>level_within_commit_calls m0 w\<close>: the published level against the history of commit
  calls. The level is still \<open>m0\<close>, the value it had at the beginning, or some task ID
  handed to the store by a commit call that has returned, whatever that call returned, is
  at least the level; that is, the level is at most the highest task ID among the commit
  calls completed so far.
\<close>

definition level_within_commit_calls :: "int64 \<Rightarrow> taskWriter \<Rightarrow> bool" where
  "level_within_commit_calls m0 w \<longleftrightarrow>
     maxReadLevel w = m0
     \<or> (\<exists>b \<in> set (db_createTasks w). \<exists>x \<in> set (fst b). maxReadLevel w \<le>s x)"

text \<open>
  For stating which IDs an allocation returns and what it leaves of the block:
  \<open>remaining b\<close> is the number of IDs the block \<open>b\<close> still holds (none once its start
  is past its end), \<open>next_ids b n\<close> are its next \<open>n\<close> IDs, and \<open>advance b n\<close> is the
  block once \<open>n\<close> IDs have been drawn from it.
\<close>

definition remaining :: "taskIDBlock \<Rightarrow> nat" where
  "remaining b = nat (sint (end_id b) - sint (start b) + 1)"

definition next_ids :: "taskIDBlock \<Rightarrow> nat \<Rightarrow> int64 list" where
  "next_ids b n = map (\<lambda>i. start b + of_nat i) [0..<n]"

definition advance :: "taskIDBlock \<Rightarrow> nat \<Rightarrow> taskIDBlock" where
  "advance b n = b\<lparr>start := start b + of_nat n\<rparr>"

section \<open>The zone-state resolver\<close>

lemmas status_defs =
  ZoneDrainStatusInvalid_def ZoneDrainStatusHealthy_def ZoneDrainStatusDrained_def

text \<open>
  C7. \<open>Get\<close> follows the layered order for every domain and zone. With zonal partitioning
  disabled for the domain the answer is \<open>(zone, healthy)\<close>, whatever the tables hold.
  Otherwise, with the domain resolved: a per-domain entry is returned when it marks the
  zone drained; when there is no such entry, or it is not a drained one, the global
  table's entry for the zone is returned if there is one, and \<open>(zone, healthy)\<close> if there
  is none. In particular a per-domain entry marking the zone healthy does not hide a
  global drain: the global, drained entry is what is returned; and a drained entry at the
  per-domain layer or, when that layer is passed, at the global layer is reported as
  drained.
\<close>

theorem Get_layered_order:
  "(\<not> zonalPartitioningEnabled z d \<longrightarrow>
      Get z d zone = Inr \<lparr>Name = zone, Status = ZoneDrainStatusHealthy\<rparr>)
   \<and> (zonalPartitioningEnabled z d \<and> domainCache_GetDomain z d = Inr zoneConfig
        \<and> zoneConfig zone = Some cfg \<and> Status cfg = ZoneDrainStatusDrained \<longrightarrow>
      Get z d zone = Inr cfg)
   \<and> (zonalPartitioningEnabled z d \<and> domainCache_GetDomain z d = Inr zoneConfig
        \<and> (zoneConfig zone = None
             \<or> (zoneConfig zone = Some cfg \<and> Status cfg \<noteq> ZoneDrainStatusDrained))
        \<and> globalZoneDrains_GetClusterDrains z = Inr drains
        \<and> drains zone = Some globalCfg \<longrightarrow>
      Get z d zone = Inr globalCfg)
   \<and> (zonalPartitioningEnabled z d \<and> domainCache_GetDomain z d = Inr zoneConfig
        \<and> (zoneConfig zone = None
             \<or> (zoneConfig zone = Some cfg \<and> Status cfg \<noteq> ZoneDrainStatusDrained))
        \<and> globalZoneDrains_GetClusterDrains z = Inr drains
        \<and> drains zone = None \<longrightarrow>
      Get z d zone = Inr \<lparr>Name = zone, Status = ZoneDrainStatusHealthy\<rparr>)
   \<and> (zonalPartitioningEnabled z d \<and> domainCache_GetDomain z d = Inr zoneConfig
        \<and> zoneConfig zone = Some cfg \<and> Status cfg = ZoneDrainStatusHealthy
        \<and> globalZoneDrains_GetClusterDrains z = Inr drains
        \<and> drains zone = Some globalCfg
        \<and> Status globalCfg = ZoneDrainStatusDrained \<longrightarrow>
      Get z d zone = Inr globalCfg \<and> Status globalCfg = ZoneDrainStatusDrained)
   \<and> (zonalPartitioningEnabled z d \<and> domainCache_GetDomain z d = Inr zoneConfig
        \<and> ((zoneConfig zone = Some cfg \<and> Status cfg = ZoneDrainStatusDrained)
             \<or> ((zoneConfig zone = None
                   \<or> (zoneConfig zone = Some cfg \<and> Status cfg \<noteq> ZoneDrainStatusDrained))
                 \<and> globalZoneDrains_GetClusterDrains z = Inr drains
                 \<and> drains zone = Some globalCfg
                 \<and> Status globalCfg = ZoneDrainStatusDrained)) \<longrightarrow>
      (\<exists>p. Get z d zone = Inr p \<and> Status p = ZoneDrainStatusDrained))"
  by (auto simp: Get_def status_defs)

theorem Get_layered_order_witness:
  "Get S6_handler ''domain'' ''x'' = Inr \<lparr>Name = ''x'', Status = ZoneDrainStatusHealthy\<rparr>
   \<and> Get override_handler ''domain'' ''a'' = Inr \<lparr>Name = ''a'', Status = ZoneDrainStatusDrained\<rparr>
   \<and> Get override_handler ''domain'' ''b'' = Inr \<lparr>Name = ''b'', Status = ZoneDrainStatusDrained\<rparr>
   \<and> Get override_handler ''domain'' ''c'' = Inr \<lparr>Name = ''c'', Status = ZoneDrainStatusDrained\<rparr>
   \<and> Get override_handler ''domain'' ''d'' = Inr \<lparr>Name = ''d'', Status = ZoneDrainStatusHealthy\<rparr>"
proof -
  let ?zc = "[''a'' \<mapsto> \<lparr>Name = ''a'', Status = ZoneDrainStatusDrained\<rparr>,
              ''b'' \<mapsto> \<lparr>Name = ''b'', Status = ZoneDrainStatusHealthy\<rparr>]"
  let ?g = "[''b'' \<mapsto> \<lparr>Name = ''b'', Status = ZoneDrainStatusDrained\<rparr>,
             ''c'' \<mapsto> \<lparr>Name = ''c'', Status = ZoneDrainStatusDrained\<rparr>]"
  let ?bh = "\<lparr>Name = ''b'', Status = ZoneDrainStatusHealthy\<rparr>"
  have off: "\<not> zonalPartitioningEnabled S6_handler ''domain''"
    by (simp add: S6_handler_def)
  have on: "zonalPartitioningEnabled override_handler ''domain''"
    and dom: "domainCache_GetDomain override_handler ''domain'' = Inr ?zc"
    and glob: "globalZoneDrains_GetClusterDrains override_handler = Inr ?g"
    by (simp_all add: override_handler_def)
  have x: "Get S6_handler ''domain'' ''x'' = Inr \<lparr>Name = ''x'', Status = ZoneDrainStatusHealthy\<rparr>"
    using Get_layered_order [of S6_handler "''domain''" "''x''"] off by blast
  have a: "Get override_handler ''domain'' ''a'' = Inr \<lparr>Name = ''a'', Status = ZoneDrainStatusDrained\<rparr>"
    using Get_layered_order
      [of override_handler "''domain''" "''a''" ?zc "\<lparr>Name = ''a'', Status = ZoneDrainStatusDrained\<rparr>"]
      on dom by simp
  have b: "Get override_handler ''domain'' ''b'' = Inr \<lparr>Name = ''b'', Status = ZoneDrainStatusDrained\<rparr>"
    using Get_layered_order
      [of override_handler "''domain''" "''b''" ?zc ?bh ?g
          "\<lparr>Name = ''b'', Status = ZoneDrainStatusDrained\<rparr>"]
      on dom glob by (simp add: status_defs)
  have c: "Get override_handler ''domain'' ''c'' = Inr \<lparr>Name = ''c'', Status = ZoneDrainStatusDrained\<rparr>"
    using Get_layered_order
      [of override_handler "''domain''" "''c''" ?zc ?bh ?g
          "\<lparr>Name = ''c'', Status = ZoneDrainStatusDrained\<rparr>"]
      on dom glob by simp
  have d: "Get override_handler ''domain'' ''d'' = Inr \<lparr>Name = ''d'', Status = ZoneDrainStatusHealthy\<rparr>"
    using Get_layered_order [of override_handler "''domain''" "''d''" ?zc ?bh ?g]
      on dom glob by simp
  from x a b c d show ?thesis by blast
qed

section \<open>Listing all zones\<close>

lemma ListAll_loop_spec:
  "(case ListAll_loop z d zones out of
      Inr res \<Rightarrow> map Inr res = map Inr out @ map (Get z d) zones
    | Inl failure \<Rightarrow>
        \<exists>zone \<in> set zones. \<exists>e.
          Get z d zone = Inl e \<and> failure = Wrapped ''failed to get zone during listing'' e)"
proof (induction zones arbitrary: out)
  case Nil
  then show ?case by simp
next
  case (Cons zone zones)
  show ?case
  proof (cases "Get z d zone")
    case (Inl e)
    then show ?thesis by simp
  next
    case (Inr zoneData)
    show ?thesis
      using Cons.IH [of "out @ [zoneData]"] Inr
      by (auto split: sum.splits)
  qed
qed

text \<open>
  C10. For every domain, \<open>ListAll\<close> either returns a list that holds, position by position,
  exactly the partition \<open>Get\<close> resolves for each zone of \<open>allZonesList\<close> (so one entry
  per zone, in the order of that list), or returns an error and no list: the error of a
  zone whose resolution failed, wrapped. It returns a list only if every zone resolved,
  so a single failing zone makes the whole call fail.
\<close>

theorem ListAll_all_or_error:
  "(case ListAll z d of
      Inr out \<Rightarrow>
        map Inr out = map (Get z d) (allZonesList z) \<and> length out = length (allZonesList z)
    | Inl failure \<Rightarrow>
        \<exists>zone \<in> set (allZonesList z). \<exists>e.
          Get z d zone = Inl e \<and> failure = Wrapped ''failed to get zone during listing'' e)
   \<and> ((\<exists>zone \<in> set (allZonesList z). \<exists>e. Get z d zone = Inl e) \<longrightarrow>
        (\<exists>failure. ListAll z d = Inl failure))"
proof -
  note loop = ListAll_loop_spec [where z = z and d = d and zones = "allZonesList z" and out = "[]"]
  have first: "(case ListAll z d of
      Inr out \<Rightarrow>
        map Inr out = map (Get z d) (allZonesList z) \<and> length out = length (allZonesList z)
    | Inl failure \<Rightarrow>
        \<exists>zone \<in> set (allZonesList z). \<exists>e.
          Get z d zone = Inl e \<and> failure = Wrapped ''failed to get zone during listing'' e)"
  proof (cases "ListAll z d")
    case (Inl failure)
    then show ?thesis using loop by (simp add: ListAll_def)
  next
    case (Inr out)
    then have m: "map Inr out = map (Get z d) (allZonesList z)"
      using loop by (simp add: ListAll_def)
    from m have "length (map Inr out :: (error + ZonePartition) list)
        = length (map (Get z d) (allZonesList z))"
      by (rule arg_cong)
    then have "length out = length (allZonesList z)" by simp
    with m Inr show ?thesis by simp
  qed
  have second: "(\<exists>zone \<in> set (allZonesList z). \<exists>e. Get z d zone = Inl e) \<longrightarrow>
        (\<exists>failure. ListAll z d = Inl failure)"
  proof
    assume "\<exists>zone \<in> set (allZonesList z). \<exists>e. Get z d zone = Inl e"
    then obtain zone e where zone: "zone \<in> set (allZonesList z)" and e: "Get z d zone = Inl e"
      by blast
    show "\<exists>failure. ListAll z d = Inl failure"
    proof (cases "ListAll z d")
      case (Inl failure)
      then show ?thesis by blast
    next
      case (Inr out)
      with first have "map Inr out = map (Get z d) (allZonesList z)" by simp
      then have "Get z d zone \<in> set (map Inr out)" using zone by simp
      with e show ?thesis by auto
    qed
  qed
  from first second show ?thesis by (rule conjI)
qed

theorem ListAll_all_or_error_witness:
  "ListAll S5_handler ''domain'' =
     Inr [\<lparr>Name = ''a'', Status = ZoneDrainStatusHealthy\<rparr>,
          \<lparr>Name = ''b'', Status = ZoneDrainStatusDrained\<rparr>,
          \<lparr>Name = ''c'', Status = ZoneDrainStatusHealthy\<rparr>]
   \<and> (\<exists>failure. ListAll failing_handler ''domain'' = Inl failure)"
proof -
  have g: "map (Get S5_handler ''domain'') (allZonesList S5_handler) =
     [Inr \<lparr>Name = ''a'', Status = ZoneDrainStatusHealthy\<rparr>,
      Inr \<lparr>Name = ''b'', Status = ZoneDrainStatusDrained\<rparr>,
      Inr \<lparr>Name = ''c'', Status = ZoneDrainStatusHealthy\<rparr>]"
    by (simp add: S5_handler_def Get_def)
  have ok: "ListAll S5_handler ''domain'' =
     Inr [\<lparr>Name = ''a'', Status = ZoneDrainStatusHealthy\<rparr>,
          \<lparr>Name = ''b'', Status = ZoneDrainStatusDrained\<rparr>,
          \<lparr>Name = ''c'', Status = ZoneDrainStatusHealthy\<rparr>]"
  proof (cases "ListAll S5_handler ''domain''")
    case (Inl failure)
    then show ?thesis
      using ListAll_all_or_error [of S5_handler "''domain''"] g by auto
  next
    case (Inr out)
    then have "map Inr out = map (Get S5_handler ''domain'') (allZonesList S5_handler)"
      using ListAll_all_or_error [of S5_handler "''domain''"] by simp
    with g Inr show ?thesis by (auto simp: map_eq_Cons_conv)
  qed
  have f: "\<exists>zone \<in> set (allZonesList failing_handler). \<exists>e.
      Get failing_handler ''domain'' zone = Inl e"
    by (auto simp: failing_handler_def Get_def)
  have bad: "\<exists>failure. ListAll failing_handler ''domain'' = Inl failure"
    using ListAll_all_or_error [of failing_handler "''domain''"] f by blast
  from ok bad show ?thesis by (rule conjI)
qed

section \<open>The pick after a drain\<close>

lemma sint_ucast_32_64: "sint (ucast (h :: 32 word) :: 64 word) = uint h"
proof -
  have u: "uint (ucast h :: 64 word) = uint h"
    by (simp add: uint_up_ucast is_up)
  have "uint h < 2 ^ 32" using uint_lt2p [of h] by simp
  then have b: "uint h < 2 ^ 63" by simp
  have "signed_take_bit 63 (uint h) = uint h"
    by (rule signed_take_bit_int_eq_self) (use b uint_ge_0 [of h] in linarith)+
  then show ?thesis by (simp add: sint_uint u)
qed

lemma go_rem_nonneg: "0 \<le> a \<Longrightarrow> 0 < b \<Longrightarrow> go_rem a b = a mod b"
  by (cases "a = 0") (simp_all add: go_rem_def)

lemma availableZones_loop_filter:
  "availableZones_loop zones acc =
     acc @ map Name (filter (\<lambda>p. Status p = ZoneDrainStatusHealthy) zones)"
  by (induction zones arbitrary: acc) simp_all

lemma pickZoneAfterDrain_index:
  assumes "map Name (filter (\<lambda>p. Status p = ZoneDrainStatusHealthy) zones) = Z" and "Z \<noteq> []"
  shows "pickZoneAfterDrain Hash32 zones wfConfig =
         Inr (Z ! (unat (Hash32 (RunID wfConfig)) mod length Z))"
proof -
  let ?h = "Hash32 (RunID wfConfig)"
  have av: "availableZones_loop zones [] = Z"
    using assms(1) by (simp add: availableZones_loop_filter)
  have n: "0 < int (length Z)" using assms(2) by simp
  have r: "go_rem (sint (ucast ?h :: 64 word)) (int (length Z)) = uint ?h mod int (length Z)"
    using n by (simp add: sint_ucast_32_64 go_rem_nonneg)
  have lo: "0 \<le> uint ?h mod int (length Z)" using n by simp
  have hi: "uint ?h mod int (length Z) < int (length Z)" using n by simp
  have "uint ?h = int (unat ?h)" by simp
  then have "uint ?h mod int (length Z) = int (unat ?h mod length Z)"
    by (simp only: zmod_int)
  then have idx: "nat (uint ?h mod int (length Z)) = unat ?h mod length Z"
    by (simp only: nat_int)
  have "pickZoneAfterDrain Hash32 zones wfConfig =
        (if int (length Z) = 0 then Inl IntegerDivideByZero
         else if uint ?h mod int (length Z) < 0 \<or> int (length Z) \<le> uint ?h mod int (length Z)
              then Inl IndexOutOfRange
              else Inr (Z ! nat (uint ?h mod int (length Z))))"
    unfolding pickZoneAfterDrain_def Let_def av r by (rule refl)
  also have "\<dots> = Inr (Z ! nat (uint ?h mod int (length Z)))"
  proof -
    have c1: "int (length Z) \<noteq> 0" using n by linarith
    have c2: "\<not> (uint ?h mod int (length Z) < 0 \<or> int (length Z) \<le> uint ?h mod int (length Z))"
      using lo hi by linarith
    show ?thesis by (simp only: c1 c2 if_False)
  qed
  finally show ?thesis by (simp only: idx)
qed

lemma pickZoneAfterDrain_no_healthy:
  "filter (\<lambda>p. Status p = ZoneDrainStatusHealthy) zones = [] \<Longrightarrow>
   pickZoneAfterDrain Hash32 zones wfConfig = Inl IntegerDivideByZero"
  by (simp add: pickZoneAfterDrain_def availableZones_loop_filter)

text \<open>
  C8. Let \<open>Z\<close> be the names of the healthy zones of the list handed to the pick, in the
  order of that list, and let \<open>Z\<close> be non-empty. Then for every run ID the pick returns
  the element of \<open>Z\<close> at index \<open>Hash32(run-id) mod |Z|\<close>, the hash read as an unsigned
  32-bit number. The pick is a function of \<open>Z\<close> and the run ID alone: a second call
  whose zone list has the same healthy zones \<open>Z\<close> and whose hint has the same run ID
  returns the same zone.
\<close>

theorem pickZoneAfterDrain_deterministic:
  assumes "map Name (filter (\<lambda>p. Status p = ZoneDrainStatusHealthy) zones) = Z"
    and "map Name (filter (\<lambda>p. Status p = ZoneDrainStatusHealthy) zones') = Z"
    and "Z \<noteq> []"
    and "RunID wfConfig' = RunID wfConfig"
  shows "pickZoneAfterDrain Hash32 zones wfConfig =
           Inr (Z ! (unat (Hash32 (RunID wfConfig)) mod length Z))
         \<and> pickZoneAfterDrain Hash32 zones' wfConfig' =
             pickZoneAfterDrain Hash32 zones wfConfig"
  using pickZoneAfterDrain_index [OF assms(1) assms(3), of Hash32 wfConfig]
    pickZoneAfterDrain_index [OF assms(2) assms(3), of Hash32 wfConfig'] assms(4)
  by simp

theorem pickZoneAfterDrain_deterministic_witness:
  "pickZoneAfterDrain example_Hash32
     [\<lparr>Name = ''a'', Status = ZoneDrainStatusHealthy\<rparr>,
      \<lparr>Name = ''b'', Status = ZoneDrainStatusDrained\<rparr>,
      \<lparr>Name = ''c'', Status = ZoneDrainStatusHealthy\<rparr>]
     \<lparr>WorkflowStartZone = ''b'', RunID = ''run''\<rparr> = Inr ''c''
   \<and> pickZoneAfterDrain example_Hash32
     [\<lparr>Name = ''a'', Status = ZoneDrainStatusHealthy\<rparr>,
      \<lparr>Name = ''c'', Status = ZoneDrainStatusHealthy\<rparr>]
     \<lparr>WorkflowStartZone = ''x'', RunID = ''run''\<rparr> = Inr ''c''"
proof -
  let ?zones = "[\<lparr>Name = ''a'', Status = ZoneDrainStatusHealthy\<rparr>,
      \<lparr>Name = ''b'', Status = ZoneDrainStatusDrained\<rparr>,
      \<lparr>Name = ''c'', Status = ZoneDrainStatusHealthy\<rparr>]"
  let ?zones' = "[\<lparr>Name = ''a'', Status = ZoneDrainStatusHealthy\<rparr>,
      \<lparr>Name = ''c'', Status = ZoneDrainStatusHealthy\<rparr>]"
  have z: "map Name (filter (\<lambda>p. Status p = ZoneDrainStatusHealthy) ?zones) = [''a'', ''c'']"
    by (simp add: status_defs)
  have z': "map Name (filter (\<lambda>p. Status p = ZoneDrainStatusHealthy) ?zones') = [''a'', ''c'']"
    by simp
  have ne: "[''a'', ''c''] \<noteq> ([] :: ZoneName list)" by simp
  have run: "RunID \<lparr>WorkflowStartZone = ''x'', RunID = ''run''\<rparr> =
             RunID \<lparr>WorkflowStartZone = ''b'', RunID = ''run''\<rparr>" by simp
  have i: "unat (example_Hash32 ''run'') mod length [''a'', ''c''] = 1"
  proof -
    have "unat (example_Hash32 ''run'') = 3" by (simp add: example_Hash32_def)
    moreover have "length [''a'', ''c''] = 2" by simp
    moreover have "(3::nat) mod 2 = 1" by simp
    ultimately show ?thesis by (simp only:)
  qed
  have el: "[''a'', ''c''] ! (unat (example_Hash32 ''run'') mod length [''a'', ''c'']) = ''c''"
    unfolding i by simp
  have r: "RunID \<lparr>WorkflowStartZone = ''b'', RunID = ''run''\<rparr> = ''run''" by simp
  note t = pickZoneAfterDrain_deterministic [OF z z' ne run, of example_Hash32]
  from t have
    "pickZoneAfterDrain example_Hash32 ?zones \<lparr>WorkflowStartZone = ''b'', RunID = ''run''\<rparr>
       = Inr ''c''
     \<and> pickZoneAfterDrain example_Hash32 ?zones' \<lparr>WorkflowStartZone = ''x'', RunID = ''run''\<rparr>
       = pickZoneAfterDrain example_Hash32 ?zones \<lparr>WorkflowStartZone = ''b'', RunID = ''run''\<rparr>"
    by (simp only: r el)
  then show ?thesis by metis
qed

text \<open>
  C3. The input at which the code departs from the claim: every zone of the domain is
  drained and the hint names the drained zone a. \<open>ListAll\<close> succeeds, no zone of its
  result is healthy, and the remainder by the number of healthy zones, zero, panics:
  \<open>GetTaskZone\<close> returns neither a zone nor an error.
\<close>

theorem GetTaskZone_no_healthy_zone_panics:
  "GetTaskZone (\<lambda>k. k) example_Hash32 \<lparr>drainState = all_drained_handler\<rparr> ''domain''
     (hint ''a'' ''r1'') = Inl IntegerDivideByZero"
  by (simp add: GetTaskZone_def hint_def Unmarshal_def field_of_key_def set_field_def
      IsDrained_def Get_def ListAll_def all_drained_handler_def pickZoneAfterDrain_def
      status_defs)

text \<open>
  The same holds at every input of that kind: whenever the start zone of a decoded hint
  is reported drained and the listed zones hold no healthy one, the call panics.
\<close>

lemma GetTaskZone_drained_no_healthy:
  assumes "Unmarshal foldName key \<lparr>WorkflowStartZone = '''', RunID = ''''\<rparr> = Inr pd"
    and "IsDrained r d (WorkflowStartZone pd) = Inr True"
    and "ListAll (drainState r) d = Inr zones"
    and "filter (\<lambda>p. Status p = ZoneDrainStatusHealthy) zones = []"
  shows "GetTaskZone foldName Hash32 r d key = Inl IntegerDivideByZero"
  using assms by (simp add: GetTaskZone_def pickZoneAfterDrain_no_healthy)

section \<open>Decoding the hint\<close>

lemma Unmarshal_object_skips_unknown:
  "Unmarshal_object foldName (filter (\<lambda>(k, v). field_of_key foldName k \<noteq> None) kvs) pd saved =
   Unmarshal_object foldName kvs pd saved"
proof (induction kvs arbitrary: pd saved)
  case Nil
  then show ?case by simp
next
  case (Cons kv kvs)
  obtain k v where kv: "kv = (k, v)" by (cases kv)
  show ?case
  proof (cases "field_of_key foldName k")
    case None
    then show ?thesis using Cons.IH kv by simp
  next
    case (Some f)
    then show ?thesis using Cons.IH kv by (cases v) simp_all
  qed
qed

lemma Unmarshal_object_keeps_start_zone:
  "\<forall>(k, v) \<in> set kvs. field_of_key foldName k \<noteq> Some WorkflowStartZone_field \<Longrightarrow>
   WorkflowStartZone (fst (Unmarshal_object foldName kvs pd saved)) = WorkflowStartZone pd"
proof (induction kvs arbitrary: pd saved)
  case Nil
  then show ?case by simp
next
  case (Cons kv kvs)
  obtain k v where kv: "kv = (k, v)" by (cases kv)
  from Cons.prems kv have k: "field_of_key foldName k \<noteq> Some WorkflowStartZone_field"
    and rest: "\<forall>(k, v) \<in> set kvs. field_of_key foldName k \<noteq> Some WorkflowStartZone_field"
    by simp_all
  show ?case
  proof (cases "field_of_key foldName k")
    case None
    then show ?thesis using Cons.IH [OF rest] kv by simp
  next
    case (Some f)
    with k have f: "f = RunID_field" by (cases f) simp_all
    show ?thesis using Cons.IH [OF rest] kv Some f
      by (cases v) (simp_all add: set_field_def)
  qed
qed

lemma Unmarshal_object_append:
  "Unmarshal_object foldName (kvs @ kvs') pd saved =
     (case Unmarshal_object foldName kvs pd saved of
        (pd', saved') \<Rightarrow> Unmarshal_object foldName kvs' pd' saved')"
proof (induction kvs arbitrary: pd saved)
  case Nil
  then show ?case by simp
next
  case (Cons kv kvs)
  obtain k v where kv: "kv = (k, v)" by (cases kv)
  show ?case
  proof (cases "field_of_key foldName k")
    case None
    then show ?thesis using Cons.IH kv by simp
  next
    case (Some f)
    then show ?thesis using Cons.IH kv by (cases v) simp_all
  qed
qed

text \<open>
  C4, as the claim states it: a hint that decodes but has no start-zone key would yield an
  error. It does not. The hint \<^verbatim>\<open>{"run-id": "r1"}\<close> decodes, the start zone is the empty
  string, the resolver (scenario S5) does not report the empty zone drained, and
  \<open>GetTaskZone\<close> returns the empty zone name.
\<close>

theorem GetTaskZone_missing_start_zone_counterexample:
  "GetTaskZone (\<lambda>k. k) example_Hash32 \<lparr>drainState = S5_handler\<rparr> ''domain''
     (Some (JObject [(''run-id'', JString ''r1'')])) = Inr (Inr '''')"
  by (simp add: GetTaskZone_def Unmarshal_def field_of_key_def set_field_def
      IsDrained_def Get_def S5_handler_def status_defs)

text \<open>
  C4, amended. Unknown keys are ignored: removing from an object every key that selects
  no field leaves the result of \<open>GetTaskZone\<close> as it is. A hint that has no key selecting
  the start-zone field is handled exactly as the same hint with the start zone given as
  the empty string; when such a hint decodes, the decoded start zone is the empty string,
  and \<open>GetTaskZone\<close> returns the empty zone name whenever the resolver reports the empty
  zone not drained. The hint \<^verbatim>\<open>null\<close> decodes too and leaves the struct as it is, so it
  is handled as the object without members.
\<close>

theorem GetTaskZone_hint_keys:
  "GetTaskZone foldName Hash32 r d
       (Some (JObject (filter (\<lambda>(k, v). field_of_key foldName k \<noteq> None) kvs))) =
     GetTaskZone foldName Hash32 r d (Some (JObject kvs))
   \<and> ((\<forall>(k, v) \<in> set kvs. field_of_key foldName k \<noteq> Some WorkflowStartZone_field) \<longrightarrow>
        GetTaskZone foldName Hash32 r d (Some (JObject kvs)) =
          GetTaskZone foldName Hash32 r d
            (Some (JObject (kvs @ [(''wf-start-zone'', JString '''')])))
        \<and> (\<forall>pd. Unmarshal foldName (Some (JObject kvs))
                   \<lparr>WorkflowStartZone = '''', RunID = ''''\<rparr> = Inr pd \<longrightarrow>
              WorkflowStartZone pd = ''''
              \<and> (IsDrained r d '''' = Inr False \<longrightarrow>
                   GetTaskZone foldName Hash32 r d (Some (JObject kvs)) = Inr (Inr ''''))))
   \<and> GetTaskZone foldName Hash32 r d (Some JNull) =
       GetTaskZone foldName Hash32 r d (Some (JObject []))"
proof (intro conjI impI allI)
  show "GetTaskZone foldName Hash32 r d
       (Some (JObject (filter (\<lambda>(k, v). field_of_key foldName k \<noteq> None) kvs))) =
     GetTaskZone foldName Hash32 r d (Some (JObject kvs))"
    unfolding GetTaskZone_def Unmarshal_def
    by (simp only: option.case json.case Unmarshal_object_skips_unknown)
next
  let ?zero = "\<lparr>WorkflowStartZone = '''', RunID = ''''\<rparr>"
  assume nokey: "\<forall>(k, v) \<in> set kvs. field_of_key foldName k \<noteq> Some WorkflowStartZone_field"
  obtain pd' saved' where u: "Unmarshal_object foldName kvs ?zero None = (pd', saved')"
    by (cases "Unmarshal_object foldName kvs ?zero None")
  have z: "WorkflowStartZone pd' = ''''"
    using Unmarshal_object_keeps_start_zone [OF nokey, of ?zero None] u by simp
  then have same: "pd'\<lparr>WorkflowStartZone := ''''\<rparr> = pd'" by simp
  have "Unmarshal_object foldName (kvs @ [(''wf-start-zone'', JString '''')]) ?zero None =
        (pd', saved')"
    by (simp add: Unmarshal_object_append u field_of_key_def set_field_def same)
  then show "GetTaskZone foldName Hash32 r d (Some (JObject kvs)) =
          GetTaskZone foldName Hash32 r d
            (Some (JObject (kvs @ [(''wf-start-zone'', JString '''')])))"
    by (simp add: GetTaskZone_def Unmarshal_def u)
  fix pd
  assume dec: "Unmarshal foldName (Some (JObject kvs)) ?zero = Inr pd"
  then have pd: "pd = pd'" using u by (simp add: Unmarshal_def split: option.splits)
  show "WorkflowStartZone pd = ''''" using z pd by simp
  assume "IsDrained r d '''' = Inr False"
  then show "GetTaskZone foldName Hash32 r d (Some (JObject kvs)) = Inr (Inr '''')"
    using dec z pd by (simp add: GetTaskZone_def)
next
  show "GetTaskZone foldName Hash32 r d (Some JNull) =
       GetTaskZone foldName Hash32 r d (Some (JObject []))"
    by (simp add: GetTaskZone_def Unmarshal_def)
qed

theorem GetTaskZone_hint_keys_witness:
  "GetTaskZone (\<lambda>k. k) example_Hash32 \<lparr>drainState = S5_handler\<rparr> ''domain''
     (Some (JObject [(''userid'', JNumber ''1234''), (''run-id'', JString ''r1'')])) = Inr (Inr '''')
   \<and> GetTaskZone (\<lambda>k. k) example_Hash32 \<lparr>drainState = S5_handler\<rparr> ''domain''
     (Some (JObject [(''userid'', JNumber ''1234''), (''run-id'', JString ''r1'')])) =
     GetTaskZone (\<lambda>k. k) example_Hash32 \<lparr>drainState = S5_handler\<rparr> ''domain''
     (Some (JObject [(''run-id'', JString ''r1'')]))"
proof -
  let ?kvs = "[(''userid'', JNumber ''1234''), (''run-id'', JString ''r1'')]"
  let ?r = "\<lparr>drainState = S5_handler\<rparr>"
  let ?pd = "\<lparr>WorkflowStartZone = '''', RunID = ''r1''\<rparr>"
  have nokey: "\<forall>(k, v) \<in> set ?kvs. field_of_key (\<lambda>k. k) k \<noteq> Some WorkflowStartZone_field"
    by (simp add: field_of_key_def)
  have dec: "Unmarshal (\<lambda>k. k) (Some (JObject ?kvs)) \<lparr>WorkflowStartZone = '''', RunID = ''''\<rparr>
      = Inr ?pd"
    by (simp add: Unmarshal_def field_of_key_def set_field_def)
  have nd: "IsDrained ?r ''domain'' '''' = Inr False"
    by (simp add: IsDrained_def Get_def S5_handler_def status_defs)
  have flt: "filter (\<lambda>(k, v). field_of_key (\<lambda>k. k) k \<noteq> None) ?kvs = [(''run-id'', JString ''r1'')]"
    by (simp add: field_of_key_def)
  note t = GetTaskZone_hint_keys [of "\<lambda>k. k" example_Hash32 ?r "''domain''" ?kvs]
  from t nokey dec nd
  have a: "GetTaskZone (\<lambda>k. k) example_Hash32 ?r ''domain'' (Some (JObject ?kvs)) = Inr (Inr '''')"
    by blast
  from t have b: "GetTaskZone (\<lambda>k. k) example_Hash32 ?r ''domain'' (Some (JObject ?kvs)) =
     GetTaskZone (\<lambda>k. k) example_Hash32 ?r ''domain'' (Some (JObject [(''run-id'', JString ''r1'')]))"
    unfolding flt by simp
  from a b show ?thesis by simp
qed

section \<open>Signed 64-bit arithmetic without wrap-around\<close>

lemma sint64_bounds: "- (2 ^ 63) \<le> sint (x :: int64) \<and> sint x < 2 ^ 63"
  using sint_ge [of x] sint_lt [of x] by simp

lemma sint64_add1: "sint (x :: int64) \<le> 2 ^ 63 - 2 \<Longrightarrow> sint (x + 1) = sint x + 1"
proof -
  assume a: "sint x \<le> 2 ^ 63 - 2"
  have "sint (x + 1) = signed_take_bit 63 (sint x + 1)"
    by (simp add: sint_word_ariths)
  also have "\<dots> = sint x + 1"
    by (rule signed_take_bit_int_eq_self) (use a sint64_bounds [of x] in simp_all)
  finally show ?thesis .
qed

lemma sint64_sub1: "- (2 ^ 63) < sint (x :: int64) \<Longrightarrow> sint (x - 1) = sint x - 1"
proof -
  assume a: "- (2 ^ 63) < sint x"
  have "sint (x - 1) = signed_take_bit 63 (sint x - 1)"
    by (simp add: sint_word_ariths)
  also have "\<dots> = sint x - 1"
    by (rule signed_take_bit_int_eq_self) (use a sint64_bounds [of x] in simp_all)
  finally show ?thesis .
qed

lemma sint64_mult:
  "- (2 ^ 63) \<le> sint (a :: int64) * sint b \<Longrightarrow> sint a * sint b < 2 ^ 63 \<Longrightarrow>
   sint (a * b) = sint a * sint b"
proof -
  assume lo: "- (2 ^ 63) \<le> sint a * sint b" and hi: "sint a * sint b < 2 ^ 63"
  have "sint (a * b) = signed_take_bit 63 (sint a * sint b)"
    by (simp add: sint_word_ariths)
  also have "\<dots> = sint a * sint b"
    by (rule signed_take_bit_int_eq_self) (use lo hi in simp_all)
  finally show ?thesis .
qed

section \<open>Allocating task IDs\<close>

lemma budget_mono:
  assumes "0 < (R :: int)" and "0 \<le> k" and "(k + int b) * R \<le> M" and "a \<le> b"
  shows "(k + int a) * R \<le> M"
proof -
  have "k + int a \<le> k + int b" using assms(4) by simp
  then have "(k + int a) * R \<le> (k + int b) * R"
    using assms(1) by (intro mult_right_mono) simp_all
  with assms(3) show ?thesis by linarith
qed

lemma le_mult_self:
  assumes "0 < (R :: int)" and "0 \<le> k"
  shows "k \<le> k * R"
proof -
  have "k * 1 \<le> k * R" using assms by (intro mult_left_mono) simp_all
  then show ?thesis by simp
qed

lemma block_sint:
  assumes R: "0 < sint (R :: int64)" and k: "0 \<le> sint (k :: int64)"
    and b: "sint k * sint R \<le> 2 ^ 63 - 2"
  shows "sint (end_id (rangeIDToTaskIDBlock k R)) = sint k * sint R"
    and "sint (start (rangeIDToTaskIDBlock k R)) = (sint k - 1) * sint R + 1"
proof -
  have nn: "0 \<le> sint k * sint R" using R k by simp
  show "sint (end_id (rangeIDToTaskIDBlock k R)) = sint k * sint R"
    using sint64_mult [of k R] nn b by (simp add: rangeIDToTaskIDBlock_def)
  have k1: "sint (k - 1) = sint k - 1"
    using sint64_sub1 [of k] k by simp
  have up: "(sint k - 1) * sint R \<le> sint k * sint R"
    using R by (intro mult_right_mono) simp_all
  have "(- 1) * sint R \<le> (sint k - 1) * sint R"
    using R k by (intro mult_right_mono) simp_all
  then have dn: "- sint R \<le> (sint k - 1) * sint R" by simp
  have Rb: "sint R < 2 ^ 63" using sint64_bounds [of R] by simp
  have m: "sint ((k - 1) * R) = (sint k - 1) * sint R"
    using sint64_mult [of "k - 1" R] up dn b Rb by (simp add: k1)
  have "sint ((k - 1) * R + 1) = sint ((k - 1) * R) + 1"
    using up b by (intro sint64_add1) (simp add: m)
  then show "sint (start (rangeIDToTaskIDBlock k R)) = (sint k - 1) * sint R + 1"
    by (simp add: rangeIDToTaskIDBlock_def m)
qed

lemma allocTaskIDBlock_cases:
  assumes "allocTaskIDBlock cfg env p w = (res, w')"
  shows "(res = Inl InvalidBlockState \<and> w' = w)
    \<or> (\<exists>e. res = Inl e \<and> RenewLease_outcome env (db_renewals w) = Inl e
          \<and> w' = w\<lparr>db_renewals := Suc (db_renewals w), tlMgr_stopped := True\<rparr>)
    \<or> (res = Inr (rangeIDToTaskIDBlock (db_rangeID w + 1) (RangeSize cfg))
          \<and> w' = w\<lparr>db_rangeID := db_rangeID w + 1, db_renewals := Suc (db_renewals w)\<rparr>
          \<and> end_id (rangeIDToTaskIDBlock (db_rangeID w) (RangeSize cfg)) = p)"
  using assms
  by (auto simp: allocTaskIDBlock_def renewLeaseWithRetry_def db_RenewLease_def Let_def
      split: if_splits sum.splits prod.splits)


lemma no_overflow_mono: "no_overflow cfg b w \<Longrightarrow> a \<le> b \<Longrightarrow> no_overflow cfg a w"
  unfolding no_overflow_def using budget_mono [of "sint (RangeSize cfg)" "sint (db_rangeID w)" b _ a]
  by blast

lemma allocTaskIDs_loop_props:
  assumes "no_overflow cfg (n + B) w" and "allocTaskIDs_loop cfg env n w acc = (res, w')"
  shows "no_overflow cfg B w' \<and> frontier w \<le> frontier w'
     \<and> (case res of
          Inr ids \<Rightarrow>
            \<exists>new. ids = acc @ new \<and> length new = n \<and> sorted_wrt (<s) new
              \<and> (\<forall>x \<in> set new. frontier w \<le> sint x \<and> sint x < frontier w')
        | Inl e \<Rightarrow> e = InvalidBlockState \<or> (\<exists>k. RenewLease_outcome env k = Inl e))"
  using assms
proof (induction n arbitrary: w acc)
  case 0
  then show ?case by (auto intro: no_overflow_mono)
next
  case (Suc n)
  let ?b = "taskIDBlock w"
  let ?R = "sint (RangeSize cfg)"
  let ?k = "sint (db_rangeID w)"
  from Suc.prems(1) have R: "0 < ?R" and k: "0 \<le> ?k"
    and bud: "(?k + int (Suc n + B)) * ?R \<le> 2 ^ 63 - 2"
    and endb: "sint (end_id ?b) \<le> 2 ^ 63 - 2"
    by (simp_all add: no_overflow_def)
  show ?case
  proof (cases "end_id ?b <s start ?b")
    case False
    let ?w1 = "w\<lparr>taskIDBlock := ?b\<lparr>start := start ?b + 1\<rparr>\<rparr>"
    from Suc.prems(2) False
    have run: "allocTaskIDs_loop cfg env n ?w1 (acc @ [start ?b]) = (res, w')" by simp
    have le: "sint (start ?b) \<le> sint (end_id ?b)"
      using False by (simp add: word_sless_alt)
    have s1: "sint (start ?b + 1) = sint (start ?b) + 1"
      using le endb by (intro sint64_add1) linarith
    have no1: "no_overflow cfg (n + B) ?w1"
      using no_overflow_mono [OF Suc.prems(1), of "n + B"] by (simp add: no_overflow_def)
    have f0: "frontier w = sint (start ?b)" using le by (simp add: frontier_def)
    have f1: "frontier ?w1 = sint (start ?b) + 1" using le by (simp add: frontier_def s1)
    note ih = Suc.IH [OF no1 run]
    show ?thesis
    proof (cases res)
      case (Inl e)
      with ih f0 f1 show ?thesis by simp
    next
      case (Inr ids)
      with ih obtain new where new: "ids = (acc @ [start ?b]) @ new" "length new = n"
        "sorted_wrt (<s) new"
        "\<forall>x \<in> set new. frontier ?w1 \<le> sint x \<and> sint x < frontier w'"
        by auto
      have mono: "frontier ?w1 \<le> frontier w'" using ih by simp
      have "sorted_wrt (<s) (start ?b # new)"
        using new(3,4) f1 by (auto simp: word_sless_alt)
      moreover have "\<forall>x \<in> set (start ?b # new). frontier w \<le> sint x \<and> sint x < frontier w'"
        using new(4) f0 f1 mono by auto
      moreover have "ids = acc @ (start ?b # new)" using new(1) by simp
      moreover have "length (start ?b # new) = Suc n" using new(2) by simp
      ultimately have "\<exists>new'. ids = acc @ new' \<and> length new' = Suc n \<and> sorted_wrt (<s) new'
              \<and> (\<forall>x \<in> set new'. frontier w \<le> sint x \<and> sint x < frontier w')"
        by blast
      with ih Inr f0 f1 show ?thesis by simp
    qed
  next
    case True
    have gt: "sint (end_id ?b) < sint (start ?b)"
      using True by (simp add: word_sless_alt)
    have f0: "frontier w = sint (end_id ?b) + 1" using gt by (simp add: frontier_def)
    obtain r wr where a: "allocTaskIDBlock cfg env (end_id ?b) w = (r, wr)"
      by (cases "allocTaskIDBlock cfg env (end_id ?b) w")
    from allocTaskIDBlock_cases [OF a]
    consider (invalid) "r = Inl InvalidBlockState" "wr = w"
      | (lease) e where "r = Inl e" "RenewLease_outcome env (db_renewals w) = Inl e"
          "wr = w\<lparr>db_renewals := Suc (db_renewals w), tlMgr_stopped := True\<rparr>"
      | (renewed) "r = Inr (rangeIDToTaskIDBlock (db_rangeID w + 1) (RangeSize cfg))"
          "wr = w\<lparr>db_rangeID := db_rangeID w + 1, db_renewals := Suc (db_renewals w)\<rparr>"
          "end_id (rangeIDToTaskIDBlock (db_rangeID w) (RangeSize cfg)) = end_id ?b"
      by blast
    then show ?thesis
    proof cases
      case invalid
      with Suc.prems(2) True a have "res = Inl InvalidBlockState" "w' = w" by simp_all
      then show ?thesis using no_overflow_mono [OF Suc.prems(1), of B] by simp
    next
      case lease
      with Suc.prems(2) True a have res: "res = Inl e"
        and w': "w' = w\<lparr>db_renewals := Suc (db_renewals w), tlMgr_stopped := True\<rparr>"
        by simp_all
      have "no_overflow cfg B w'"
        using no_overflow_mono [OF Suc.prems(1), of B] by (simp add: no_overflow_def w')
      moreover have "frontier w' = frontier w" by (simp add: frontier_def w')
      ultimately show ?thesis using res lease(2) by auto
    next
      case renewed
      let ?nb = "rangeIDToTaskIDBlock (db_rangeID w + 1) (RangeSize cfg)"
      let ?w2 = "wr\<lparr>taskIDBlock := ?nb\<lparr>start := start ?nb + 1\<rparr>\<rparr>"
      from Suc.prems(2) True a renewed(1)
      have run: "allocTaskIDs_loop cfg env n ?w2 (acc @ [start ?nb]) = (res, w')" by simp
      have kR: "?k * ?R \<le> 2 ^ 63 - 2"
        using budget_mono [OF R k bud, of 0] by simp
      have k1R: "(?k + 1) * ?R \<le> 2 ^ 63 - 2"
        using budget_mono [OF R k bud, of 1] by simp
      have kk: "?k \<le> ?k * ?R" using le_mult_self [OF R k] .
      have sk1: "sint (db_rangeID w + 1) = ?k + 1"
        using kk kR by (intro sint64_add1) linarith
      have old_end: "sint (end_id ?b) = ?k * ?R"
        using block_sint(1) [OF R k kR] renewed(3) by simp
      have k1: "0 \<le> sint (db_rangeID w + 1)" using k sk1 by simp
      have k1R': "sint (db_rangeID w + 1) * ?R \<le> 2 ^ 63 - 2" using k1R sk1 by simp
      have new_end: "sint (end_id ?nb) = (?k + 1) * ?R"
        using block_sint(1) [OF R k1 k1R'] sk1 by simp
      have new_start: "sint (start ?nb) = ?k * ?R + 1"
        using block_sint(2) [OF R k1 k1R'] sk1 by simp
      have expand: "(?k + 1) * ?R = ?k * ?R + ?R" by (simp add: algebra_simps)
      have s1: "sint (start ?nb + 1) = ?k * ?R + 2"
        using sint64_add1 [of "start ?nb"] new_start k1R expand R by simp
      have f2: "frontier ?w2 = ?k * ?R + 2"
        using R by (simp add: frontier_def s1 new_end expand)
      have bud2: "(sint (db_rangeID w + 1) + int (n + B)) * ?R \<le> 2 ^ 63 - 2"
        using bud sk1 by (simp add: algebra_simps)
      have no2: "no_overflow cfg (n + B) ?w2"
        using R k1 bud2 new_end k1R by (simp add: no_overflow_def renewed(2))
      note ih = Suc.IH [OF no2 run]
      show ?thesis
      proof (cases res)
        case (Inl e)
        with ih f0 f2 old_end show ?thesis by simp
      next
        case (Inr ids)
        with ih obtain new where new: "ids = (acc @ [start ?nb]) @ new" "length new = n"
          "sorted_wrt (<s) new"
          "\<forall>x \<in> set new. frontier ?w2 \<le> sint x \<and> sint x < frontier w'"
          by auto
        have mono: "frontier ?w2 \<le> frontier w'" using ih by simp
        have "sorted_wrt (<s) (start ?nb # new)"
          using new(3,4) f2 new_start by (auto simp: word_sless_alt)
        moreover have "\<forall>x \<in> set (start ?nb # new). frontier w \<le> sint x \<and> sint x < frontier w'"
          using new(4) f0 f2 mono old_end new_start by auto
        moreover have "ids = acc @ (start ?nb # new)" using new(1) by simp
        moreover have "length (start ?nb # new) = Suc n" using new(2) by simp
        ultimately have "\<exists>new'. ids = acc @ new' \<and> length new' = Suc n \<and> sorted_wrt (<s) new'
                \<and> (\<forall>x \<in> set new'. frontier w \<le> sint x \<and> sint x < frontier w')"
          by blast
        with ih Inr f0 f2 old_end show ?thesis by simp
      qed
    qed
  qed
qed


lemma allocTaskIDs_loop_length:
  "allocTaskIDs_loop cfg env n w acc = (res, w') \<Longrightarrow>
   (case res of
      Inr ids \<Rightarrow> length ids = length acc + n
    | Inl e \<Rightarrow> e = InvalidBlockState \<or> (\<exists>k. RenewLease_outcome env k = Inl e))"
proof (induction n arbitrary: w acc)
  case 0
  then show ?case by auto
next
  case (Suc n)
  let ?b = "taskIDBlock w"
  show ?case
  proof (cases "end_id ?b <s start ?b")
    case False
    with Suc.prems Suc.IH [of "w\<lparr>taskIDBlock := ?b\<lparr>start := start ?b + 1\<rparr>\<rparr>" "acc @ [start ?b]"]
    show ?thesis by (auto split: sum.splits)
  next
    case True
    obtain r wr where a: "allocTaskIDBlock cfg env (end_id ?b) w = (r, wr)"
      by (cases "allocTaskIDBlock cfg env (end_id ?b) w")
    from allocTaskIDBlock_cases [OF a] show ?thesis
    proof (elim disjE conjE exE)
      assume "r = Inl InvalidBlockState" "wr = w"
      with Suc.prems True a show ?thesis by auto
    next
      fix e assume "r = Inl e" "RenewLease_outcome env (db_renewals w) = Inl e"
        "wr = w\<lparr>db_renewals := Suc (db_renewals w), tlMgr_stopped := True\<rparr>"
      with Suc.prems True a show ?thesis by auto
    next
      let ?nb = "rangeIDToTaskIDBlock (db_rangeID w + 1) (RangeSize cfg)"
      assume r: "r = Inr ?nb"
      with Suc.prems True a
      have "allocTaskIDs_loop cfg env n (wr\<lparr>taskIDBlock := ?nb\<lparr>start := start ?nb + 1\<rparr>\<rparr>)
              (acc @ [start ?nb]) = (res, w')" by simp
      from Suc.IH [OF this] show ?thesis by (auto split: sum.splits)
    qed
  qed
qed

lemma allocTaskIDs_calls_sorted:
  "no_overflow cfg (sum_list ns) w \<Longrightarrow>
   sorted_wrt (<s) (concat (allocTaskIDs_calls cfg env ns w))
   \<and> (\<forall>x \<in> set (concat (allocTaskIDs_calls cfg env ns w)). frontier w \<le> sint x)"
proof (induction ns arbitrary: w)
  case Nil
  then show ?case by simp
next
  case (Cons n ns)
  obtain res w' where c: "allocTaskIDs cfg env n w = (res, w')"
    by (cases "allocTaskIDs cfg env n w")
  then have l: "allocTaskIDs_loop cfg env n w [] = (res, w')" by (simp add: allocTaskIDs_def)
  from Cons.prems have "no_overflow cfg (n + sum_list ns) w" by simp
  note p = allocTaskIDs_loop_props [OF this l]
  then have no: "no_overflow cfg (sum_list ns) w'" and mono: "frontier w \<le> frontier w'"
    by simp_all
  note ih = Cons.IH [OF no]
  have ge: "\<forall>x \<in> set (concat (allocTaskIDs_calls cfg env ns w')). frontier w \<le> sint x"
  proof
    fix x assume "x \<in> set (concat (allocTaskIDs_calls cfg env ns w'))"
    with ih have "frontier w' \<le> sint x" by blast
    with mono show "frontier w \<le> sint x" by linarith
  qed
  show ?case
  proof (cases res)
    case (Inl e)
    with c ih ge show ?thesis by simp
  next
    case (Inr ids)
    with p have ids: "sorted_wrt (<s) ids"
      "\<forall>x \<in> set ids. frontier w \<le> sint x \<and> sint x < frontier w'" by auto
    have "\<forall>x \<in> set ids. \<forall>y \<in> set (concat (allocTaskIDs_calls cfg env ns w')). x <s y"
      using ids(2) ih by (fastforce simp: word_sless_alt)
    then have "sorted_wrt (<s) (ids @ concat (allocTaskIDs_calls cfg env ns w'))"
      using ids(1) ih by (simp add: sorted_wrt_append)
    moreover have "\<forall>x \<in> set (ids @ concat (allocTaskIDs_calls cfg env ns w')). frontier w \<le> sint x"
      using ids(2) ge by auto
    ultimately show ?thesis using c Inr by simp
  qed
qed

lemma sint64_add_of_nat:
  assumes "sint (x :: int64) + int n \<le> 2 ^ 63 - 1"
  shows "sint (x + of_nat n) = sint x + int n"
proof -
  have "x + of_nat n = word_of_int (sint x + int n)" by simp
  then have "sint (x + of_nat n) = signed_take_bit 63 (sint x + int n)"
    by (simp only: sint_sbintrunc') simp
  also have "\<dots> = sint x + int n"
    by (rule signed_take_bit_int_eq_self) (use assms sint64_bounds [of x] in simp_all)
  finally show ?thesis .
qed

lemma next_ids_Suc:
  "next_ids b (Suc m) = start b # next_ids (b\<lparr>start := start b + 1\<rparr>) m"
proof -
  have "[0..<Suc m] = 0 # [Suc 0..<Suc m]" by (rule upt_conv_Cons) simp
  also have "[Suc 0..<Suc m] = map Suc [0..<m]" by (simp only: map_Suc_upt)
  finally have "[0..<Suc m] = 0 # map Suc [0..<m]" .
  then have "next_ids b (Suc m) =
      map (\<lambda>i. start b + of_nat i) (0 # map Suc [0..<m])"
    by (simp only: next_ids_def)
  then show ?thesis by (simp add: next_ids_def comp_def add.assoc)
qed

lemma advance_Suc:
  "advance (b\<lparr>start := start b + 1\<rparr>) m = advance b (Suc m)"
  by (simp add: advance_def add.assoc)

lemma advance_0 [simp]: "advance b 0 = b"
  by (simp add: advance_def)

lemma next_ids_0 [simp]: "next_ids b 0 = []"
  by (simp add: next_ids_def)

text \<open>Drawing \<open>m\<close> IDs from a block that holds at least \<open>m\<close>.\<close>

lemma allocTaskIDs_loop_draw:
  "m \<le> remaining (taskIDBlock w) \<Longrightarrow>
   allocTaskIDs_loop cfg env (m + k) w acc =
     allocTaskIDs_loop cfg env k (w\<lparr>taskIDBlock := advance (taskIDBlock w) m\<rparr>)
       (acc @ next_ids (taskIDBlock w) m)"
proof (induction m arbitrary: w acc)
  case 0
  then show ?case by simp
next
  case (Suc m)
  let ?b = "taskIDBlock w"
  let ?w1 = "w\<lparr>taskIDBlock := ?b\<lparr>start := start ?b + 1\<rparr>\<rparr>"
  from Suc.prems have le: "sint (start ?b) \<le> sint (end_id ?b)"
    by (simp add: remaining_def)
  then have no: "\<not> end_id ?b <s start ?b" by (simp add: word_sless_alt)
  have m: "m \<le> remaining (taskIDBlock ?w1)"
  proof (cases m)
    case 0
    then show ?thesis by simp
  next
    case (Suc m')
    with Suc.prems have lt: "sint (start ?b) < sint (end_id ?b)"
      by (simp add: remaining_def)
    have "sint (end_id ?b) < 2 ^ 63" using sint64_bounds [of "end_id ?b"] by simp
    with lt have "sint (start ?b + 1) = sint (start ?b) + 1"
      by (intro sint64_add1) linarith
    with Suc.prems show ?thesis by (simp add: remaining_def)
  qed
  have "allocTaskIDs_loop cfg env (Suc m + k) w acc =
        allocTaskIDs_loop cfg env (m + k) ?w1 (acc @ [start ?b])"
    using no by simp
  also have "\<dots> = allocTaskIDs_loop cfg env k
        (?w1\<lparr>taskIDBlock := advance (taskIDBlock ?w1) m\<rparr>)
        ((acc @ [start ?b]) @ next_ids (taskIDBlock ?w1) m)"
    by (rule Suc.IH [OF m])
  finally show ?case by (simp add: advance_Suc next_ids_Suc)
qed

lemma allocTaskIDs_loop_acc:
  "allocTaskIDs_loop cfg env n w acc =
     (case allocTaskIDs_loop cfg env n w [] of
        (Inl e, w') \<Rightarrow> (Inl e, w')
      | (Inr ids, w') \<Rightarrow> (Inr (acc @ ids), w'))"
proof (induction n arbitrary: w acc)
  case 0
  then show ?case by simp
next
  case (Suc n)
  let ?b = "taskIDBlock w"
  show ?case
  proof (cases "end_id ?b <s start ?b")
    case False
    let ?w1 = "w\<lparr>taskIDBlock := ?b\<lparr>start := start ?b + 1\<rparr>\<rparr>"
    from False Suc.IH [of ?w1 "acc @ [start ?b]"] Suc.IH [of ?w1 "[start ?b]"]
    show ?thesis by (simp split: prod.splits sum.splits)
  next
    case True
    obtain r wr where a: "allocTaskIDBlock cfg env (end_id ?b) w = (r, wr)"
      by (cases "allocTaskIDBlock cfg env (end_id ?b) w")
    show ?thesis
    proof (cases r)
      case (Inl e)
      with True a show ?thesis by simp
    next
      case (Inr nb)
      let ?w2 = "wr\<lparr>taskIDBlock := nb\<lparr>start := start nb + 1\<rparr>\<rparr>"
      from True a Inr Suc.IH [of ?w2 "acc @ [start nb]"] Suc.IH [of ?w2 "[start nb]"]
      show ?thesis by (simp split: prod.splits sum.splits)
    qed
  qed
qed


lemma end_id_advance [simp]: "end_id (advance b n) = end_id b"
  by (simp add: advance_def)

lemma advance_exhausted:
  assumes "sint (end_id b) \<le> 2 ^ 63 - 2"
  shows "end_id (advance b (remaining b)) <s start (advance b (remaining b))"
proof (cases "remaining b = 0")
  case True
  then have "sint (end_id b) < sint (start b)" by (simp add: remaining_def)
  with True show ?thesis by (simp add: word_sless_alt)
next
  case False
  then have r: "int (remaining b) = sint (end_id b) - sint (start b) + 1"
    by (simp add: remaining_def)
  have "sint (start b + of_nat (remaining b)) = sint (start b) + int (remaining b)"
    using assms r by (intro sint64_add_of_nat) linarith
  with r have "sint (start b + of_nat (remaining b)) = sint (end_id b) + 1" by linarith
  then show ?thesis by (simp add: advance_def word_sless_alt)
qed

text \<open>An allocation that fits in the block; and one that does not.\<close>

lemma allocTaskIDs_within_block:
  assumes "n \<le> remaining (taskIDBlock w)"
  shows "allocTaskIDs cfg env n w =
    (Inr (next_ids (taskIDBlock w) n), w\<lparr>taskIDBlock := advance (taskIDBlock w) n\<rparr>)"
  using allocTaskIDs_loop_draw [OF assms, of cfg env 0 "[]"] by (simp add: allocTaskIDs_def)

lemma allocTaskIDs_beyond_block:
  assumes lt: "remaining (taskIDBlock w) < n"
    and e: "sint (end_id (taskIDBlock w)) \<le> 2 ^ 63 - 2"
  shows "allocTaskIDs cfg env n w =
    (let b = taskIDBlock w; m = remaining b;
         newBlock = rangeIDToTaskIDBlock (db_rangeID w + 1) (RangeSize cfg)
     in if end_id (rangeIDToTaskIDBlock (db_rangeID w) (RangeSize cfg)) \<noteq> end_id b
        then (Inl InvalidBlockState, w\<lparr>taskIDBlock := advance b m\<rparr>)
        else
          (case RenewLease_outcome env (db_renewals w) of
             Inl e \<Rightarrow>
               (Inl e, w\<lparr>taskIDBlock := advance b m, db_renewals := Suc (db_renewals w),
                          tlMgr_stopped := True\<rparr>)
           | Inr ack \<Rightarrow>
               (case allocTaskIDs cfg env (n - m - 1)
                       (w\<lparr>db_rangeID := db_rangeID w + 1,
                          db_renewals := Suc (db_renewals w),
                          taskIDBlock := advance newBlock 1\<rparr>) of
                  (Inl e, w') \<Rightarrow> (Inl e, w')
                | (Inr ids, w') \<Rightarrow> (Inr (next_ids b m @ start newBlock # ids), w'))))"
proof -
  let ?b = "taskIDBlock w"
  let ?m = "remaining ?b"
  let ?wm = "w\<lparr>taskIDBlock := advance ?b ?m\<rparr>"
  let ?nb = "rangeIDToTaskIDBlock (db_rangeID w + 1) (RangeSize cfg)"
  from lt obtain k where "n = Suc (?m + k)" by (auto simp: less_iff_Suc_add)
  then have n: "n = ?m + Suc k" by simp
  then have k: "n - ?m - 1 = k" by simp
  have ex: "end_id (taskIDBlock ?wm) <s start (taskIDBlock ?wm)"
    using advance_exhausted [OF e] by simp
  have "allocTaskIDs cfg env n w =
        allocTaskIDs_loop cfg env (Suc k) ?wm (next_ids ?b ?m)"
    using allocTaskIDs_loop_draw [of ?m w cfg env "Suc k" "[]"]
    by (simp add: allocTaskIDs_def n)
  also have "\<dots> =
      (case allocTaskIDBlock cfg env (end_id ?b) ?wm of
          (Inl e, w') \<Rightarrow> (Inl e, w')
        | (Inr newBlock, w') \<Rightarrow>
            allocTaskIDs_loop cfg env k
              (w'\<lparr>taskIDBlock := newBlock\<lparr>start := start newBlock + 1\<rparr>\<rparr>)
              (next_ids ?b ?m @ [start newBlock]))"
    using ex by simp
  also have "\<dots> =
    (if end_id (rangeIDToTaskIDBlock (db_rangeID w) (RangeSize cfg)) \<noteq> end_id ?b
        then (Inl InvalidBlockState, ?wm)
        else
          (case RenewLease_outcome env (db_renewals w) of
             Inl e \<Rightarrow>
               (Inl e, w\<lparr>taskIDBlock := advance ?b ?m, db_renewals := Suc (db_renewals w),
                          tlMgr_stopped := True\<rparr>)
           | Inr ack \<Rightarrow>
               allocTaskIDs_loop cfg env k
                 (w\<lparr>db_rangeID := db_rangeID w + 1, db_renewals := Suc (db_renewals w),
                    taskIDBlock := advance ?nb 1\<rparr>)
                 (next_ids ?b ?m @ [start ?nb])))"
    by (simp add: allocTaskIDBlock_def renewLeaseWithRetry_def db_RenewLease_def Let_def
        advance_def split: sum.splits)
  also have "\<dots> =
    (if end_id (rangeIDToTaskIDBlock (db_rangeID w) (RangeSize cfg)) \<noteq> end_id ?b
        then (Inl InvalidBlockState, ?wm)
        else
          (case RenewLease_outcome env (db_renewals w) of
             Inl e \<Rightarrow>
               (Inl e, w\<lparr>taskIDBlock := advance ?b ?m, db_renewals := Suc (db_renewals w),
                          tlMgr_stopped := True\<rparr>)
           | Inr ack \<Rightarrow>
               (case allocTaskIDs cfg env k
                       (w\<lparr>db_rangeID := db_rangeID w + 1,
                          db_renewals := Suc (db_renewals w),
                          taskIDBlock := advance ?nb 1\<rparr>) of
                  (Inl e, w') \<Rightarrow> (Inl e, w')
                | (Inr ids, w') \<Rightarrow> (Inr (next_ids ?b ?m @ start ?nb # ids), w'))))"
    using allocTaskIDs_loop_acc [of cfg env k
        "w\<lparr>db_rangeID := db_rangeID w + 1, db_renewals := Suc (db_renewals w),
            taskIDBlock := advance ?nb 1\<rparr>" "next_ids ?b ?m @ [start ?nb]"]
    by (simp add: allocTaskIDs_def split: sum.splits prod.splits)
  finally show ?thesis unfolding Let_def k .
qed

lemma S2_writer_eq:
  "S2_writer =
    \<lparr>appendCh = [], appendCh_cap = 4, taskIDBlock = \<lparr>start = 1, end_id = 2\<rparr>,
     maxReadLevel = 0, stopped = 0, stopCh_closed = False, db_rangeID = 1, db_renewals = 1,
     taskAckManager_ackLevel = 0, tlMgr_stopped = False, db_createTasks = [], sent = []\<rparr>"
  by (simp add: S2_writer_def S2_cfg_def ok_env_def newTaskWriter_def Start_def
      renewLeaseWithRetry_def db_RenewLease_def rangeIDToTaskIDBlock_def)

lemma S2_alloc: "fst (allocTaskIDs S2_cfg ok_env 3 S2_writer) = Inr [1, 2, 3]"
  by (simp add: S2_writer_eq allocTaskIDs_def numeral_3_eq_3 allocTaskIDBlock_def
      renewLeaseWithRetry_def db_RenewLease_def rangeIDToTaskIDBlock_def S2_cfg_def ok_env_def
      word_sless_alt)

lemma S2_remaining: "remaining (taskIDBlock S2_writer) = 2"
  by (simp add: S2_writer_eq remaining_def)

lemma S2_end: "sint (end_id (taskIDBlock S2_writer)) \<le> 2 ^ 63 - 2"
  by (simp add: S2_writer_eq)

text \<open>
  C5. A call \<open>allocTaskIDs n\<close> either returns exactly \<open>n\<close> task IDs or returns an error:
  the error of the block renewal, which is the lease error handed up by the renewal or the
  invalid-state error of the renewal's own check. It never returns fewer (or more) than
  \<open>n\<close> IDs. The IDs of one call are strictly increasing, as signed 64-bit numbers; and
  over successive calls on the same writer the IDs of the calls that succeed, taken in the
  order of the calls, are strictly increasing, also when calls in between fail. The
  ordering is stated for the case that no \<^verbatim>\<open>int64\<close> operation of these allocations wraps
  around (\<open>no_overflow\<close>): range size positive, range ID not negative, and the blocks
  reached below the largest \<^verbatim>\<open>int64\<close>.

  Where the IDs come from is stated block by block. A call that asks for no more IDs than
  the current block still holds (\<open>remaining\<close>) is served from that block alone: it returns
  the next \<open>n\<close> IDs of the block and moves the block's start past them, and the lease is
  not touched. A call that asks for more first draws what the block holds, and then the
  exhausted block is renewed: if the block computed from the stored range ID does not end
  where the exhausted block ends, the call returns the invalid-state error; otherwise the
  lease is renewed, and if the renewal fails its error is the result of the call, no ID is
  returned and the task-list manager is stopped; if it succeeds, the range ID is one
  higher, the next ID is the first one of the block of the new range ID, and the call
  continues from that block for the IDs still missing (where it may renew again). The
  second case is stated for a block that does not end at the largest \<^verbatim>\<open>int64\<close>.
\<close>

theorem allocTaskIDs_strictly_increasing:
  "(case allocTaskIDs cfg env n w of
      (Inr ids, w') \<Rightarrow> length ids = n \<and> (no_overflow cfg n w \<longrightarrow> sorted_wrt (<s) ids)
    | (Inl e, w') \<Rightarrow> e = InvalidBlockState \<or> (\<exists>k. RenewLease_outcome env k = Inl e))
   \<and> (no_overflow cfg (sum_list ns) w \<longrightarrow>
        sorted_wrt (<s) (concat (allocTaskIDs_calls cfg env ns w)))
   \<and> (n \<le> remaining (taskIDBlock w) \<longrightarrow>
        allocTaskIDs cfg env n w =
          (Inr (next_ids (taskIDBlock w) n), w\<lparr>taskIDBlock := advance (taskIDBlock w) n\<rparr>))
   \<and> (remaining (taskIDBlock w) < n \<and> sint (end_id (taskIDBlock w)) \<le> 2 ^ 63 - 2 \<longrightarrow>
        allocTaskIDs cfg env n w =
          (let b = taskIDBlock w; m = remaining b;
               newBlock = rangeIDToTaskIDBlock (db_rangeID w + 1) (RangeSize cfg)
           in if end_id (rangeIDToTaskIDBlock (db_rangeID w) (RangeSize cfg)) \<noteq> end_id b
              then (Inl InvalidBlockState, w\<lparr>taskIDBlock := advance b m\<rparr>)
              else
                (case RenewLease_outcome env (db_renewals w) of
                   Inl e \<Rightarrow>
                     (Inl e, w\<lparr>taskIDBlock := advance b m, db_renewals := Suc (db_renewals w),
                                tlMgr_stopped := True\<rparr>)
                 | Inr ack \<Rightarrow>
                     (case allocTaskIDs cfg env (n - m - 1)
                             (w\<lparr>db_rangeID := db_rangeID w + 1,
                                db_renewals := Suc (db_renewals w),
                                taskIDBlock := advance newBlock 1\<rparr>) of
                        (Inl e, w') \<Rightarrow> (Inl e, w')
                      | (Inr ids, w') \<Rightarrow>
                          (Inr (next_ids b m @ start newBlock # ids), w')))))"
proof (intro conjI impI)
  obtain res w' where c: "allocTaskIDs cfg env n w = (res, w')"
    by (cases "allocTaskIDs cfg env n w")
  then have l: "allocTaskIDs_loop cfg env n w [] = (res, w')" by (simp add: allocTaskIDs_def)
  note len = allocTaskIDs_loop_length [OF l]
  have srt: "no_overflow cfg n w \<Longrightarrow> res = Inr ids \<Longrightarrow> sorted_wrt (<s) ids" for ids
    using allocTaskIDs_loop_props [of cfg n 0 w env "[]" res w'] l by auto
  have "case res of
      Inr ids \<Rightarrow> length ids = n \<and> (no_overflow cfg n w \<longrightarrow> sorted_wrt (<s) ids)
    | Inl e \<Rightarrow> e = InvalidBlockState \<or> (\<exists>k. RenewLease_outcome env k = Inl e)"
    using len srt by (cases res) auto
  then show "case allocTaskIDs cfg env n w of
      (Inr ids, w') \<Rightarrow> length ids = n \<and> (no_overflow cfg n w \<longrightarrow> sorted_wrt (<s) ids)
    | (Inl e, w') \<Rightarrow> e = InvalidBlockState \<or> (\<exists>k. RenewLease_outcome env k = Inl e)"
    using c by simp
next
  assume "no_overflow cfg (sum_list ns) w"
  then show "sorted_wrt (<s) (concat (allocTaskIDs_calls cfg env ns w))"
    using allocTaskIDs_calls_sorted [of cfg ns w env] by simp
next
  assume "n \<le> remaining (taskIDBlock w)"
  then show "allocTaskIDs cfg env n w =
          (Inr (next_ids (taskIDBlock w) n), w\<lparr>taskIDBlock := advance (taskIDBlock w) n\<rparr>)"
    by (rule allocTaskIDs_within_block)
next
  assume "remaining (taskIDBlock w) < n \<and> sint (end_id (taskIDBlock w)) \<le> 2 ^ 63 - 2"
  then have lt: "remaining (taskIDBlock w) < n"
    and e: "sint (end_id (taskIDBlock w)) \<le> 2 ^ 63 - 2" by simp_all
  show "allocTaskIDs cfg env n w =
          (let b = taskIDBlock w; m = remaining b;
               newBlock = rangeIDToTaskIDBlock (db_rangeID w + 1) (RangeSize cfg)
           in if end_id (rangeIDToTaskIDBlock (db_rangeID w) (RangeSize cfg)) \<noteq> end_id b
              then (Inl InvalidBlockState, w\<lparr>taskIDBlock := advance b m\<rparr>)
              else
                (case RenewLease_outcome env (db_renewals w) of
                   Inl e \<Rightarrow>
                     (Inl e, w\<lparr>taskIDBlock := advance b m, db_renewals := Suc (db_renewals w),
                                tlMgr_stopped := True\<rparr>)
                 | Inr ack \<Rightarrow>
                     (case allocTaskIDs cfg env (n - m - 1)
                             (w\<lparr>db_rangeID := db_rangeID w + 1,
                                db_renewals := Suc (db_renewals w),
                                taskIDBlock := advance newBlock 1\<rparr>) of
                        (Inl e, w') \<Rightarrow> (Inl e, w')
                      | (Inr ids, w') \<Rightarrow>
                          (Inr (next_ids b m @ start newBlock # ids), w'))))"
    by (rule allocTaskIDs_beyond_block [OF lt e])
qed

theorem allocTaskIDs_strictly_increasing_witness:
  "no_overflow S2_cfg 3 S2_writer
   \<and> fst (allocTaskIDs S2_cfg ok_env 3 S2_writer) = Inr [1, 2, 3]
   \<and> sorted_wrt (<s) [1, 2, 3 :: int64]
   \<and> sorted_wrt (<s) (concat (allocTaskIDs_calls S2_cfg ok_env [2, 1] S2_writer))
   \<and> allocTaskIDs S2_cfg ok_env 2 S2_writer =
       (Inr [1, 2], S2_writer\<lparr>taskIDBlock := \<lparr>start = 3, end_id = 2\<rparr>\<rparr>)
   \<and> allocTaskIDs S2_cfg lease_lost_env 3 S2_writer =
       (Inl (External ''lease lost''),
        S2_writer\<lparr>taskIDBlock := \<lparr>start = 3, end_id = 2\<rparr>, db_renewals := 2,
                   tlMgr_stopped := True\<rparr>)"
proof -
  have no: "no_overflow S2_cfg 3 S2_writer"
    by (simp add: no_overflow_def S2_writer_eq S2_cfg_def)
  have sum: "sum_list [2, 1 :: nat] = 3" by simp
  obtain res w' where c: "allocTaskIDs S2_cfg ok_env 3 S2_writer = (res, w')"
    by (cases "allocTaskIDs S2_cfg ok_env 3 S2_writer")
  with S2_alloc have res: "res = Inr [1, 2, 3]" by simp
  note t = allocTaskIDs_strictly_increasing
    [where cfg = S2_cfg and env = ok_env and n = 3 and w = S2_writer and ns = "[2, 1]"]
  from t c res no have a: "sorted_wrt (<s) [1, 2, 3 :: int64]" by simp
  from t no sum have b: "sorted_wrt (<s) (concat (allocTaskIDs_calls S2_cfg ok_env [2, 1] S2_writer))"
    by (simp only:)
  have fits: "2 \<le> remaining (taskIDBlock S2_writer)" by (simp add: S2_remaining)
  have ids2: "next_ids (taskIDBlock S2_writer) 2 = [1, 2]"
    by (simp add: next_ids_def S2_writer_eq upt_rec [of 0] numeral_2_eq_2)
  have adv2: "advance (taskIDBlock S2_writer) 2 = \<lparr>start = 3, end_id = 2\<rparr>"
    by (simp add: advance_def S2_writer_eq)
  from allocTaskIDs_strictly_increasing [where cfg = S2_cfg and env = ok_env and n = 2 and w = S2_writer] fits
  have within: "allocTaskIDs S2_cfg ok_env 2 S2_writer =
       (Inr [1, 2], S2_writer\<lparr>taskIDBlock := \<lparr>start = 3, end_id = 2\<rparr>\<rparr>)"
    by (simp only: ids2 adv2)
  have beyond: "remaining (taskIDBlock S2_writer) < 3
      \<and> sint (end_id (taskIDBlock S2_writer)) \<le> 2 ^ 63 - 2"
    using S2_end by (simp add: S2_remaining)
  have chk: "end_id (rangeIDToTaskIDBlock (db_rangeID S2_writer) (RangeSize S2_cfg)) =
      end_id (taskIDBlock S2_writer)"
    by (simp add: S2_writer_eq S2_cfg_def rangeIDToTaskIDBlock_def)
  have out: "RenewLease_outcome lease_lost_env (db_renewals S2_writer) =
      Inl (External ''lease lost'')"
    by (simp add: lease_lost_env_def)
  have ren: "db_renewals S2_writer = 1" by (simp add: S2_writer_eq)
  from allocTaskIDs_strictly_increasing [where cfg = S2_cfg and env = lease_lost_env and n = 3 and w = S2_writer] beyond
  have "allocTaskIDs S2_cfg lease_lost_env 3 S2_writer =
       (Inl (External ''lease lost''),
        S2_writer\<lparr>taskIDBlock := advance (taskIDBlock S2_writer) (remaining (taskIDBlock S2_writer)),
                   db_renewals := Suc (db_renewals S2_writer), tlMgr_stopped := True\<rparr>)"
    by (simp add: Let_def chk out)
  then have lost: "allocTaskIDs S2_cfg lease_lost_env 3 S2_writer =
       (Inl (External ''lease lost''),
        S2_writer\<lparr>taskIDBlock := \<lparr>start = 3, end_id = 2\<rparr>, db_renewals := 2,
                   tlMgr_stopped := True\<rparr>)"
    by (simp add: S2_remaining adv2 ren)
  from no S2_alloc a b within lost show ?thesis by blast
qed

section \<open>The writer loop\<close>

lemma getWriteBatch_loop_take:
  "getWriteBatch_loop maxBatch i ch reqs =
     (reqs @ take (nat (maxBatch - int i)) ch, drop (nat (maxBatch - int i)) ch)"
proof (induction ch arbitrary: i reqs)
  case Nil
  then show ?case by simp
next
  case (Cons req ch)
  show ?case
  proof (cases "int i < maxBatch")
    case True
    then have "nat (maxBatch - int i) = Suc (nat (maxBatch - int (Suc i)))" by simp
    with True Cons.IH [of "Suc i" "reqs @ [req]"] show ?thesis by simp
  next
    case False
    then show ?thesis by simp
  qed
qed

lemma getWriteBatch_eq:
  "getWriteBatch cfg reqs w =
     (reqs @ take (nat (MaxTaskBatchSize cfg)) (appendCh w),
      w\<lparr>appendCh := drop (nat (MaxTaskBatchSize cfg)) (appendCh w)\<rparr>)"
  by (simp add: getWriteBatch_def getWriteBatch_loop_take)

lemma foldl_last_index:
  "foldl (\<lambda>m i. (ids :: int64 list) ! i) z [0..<n] = (if n = 0 then z else ids ! (n - 1))"
  by (induction n) simp_all

lemma allocTaskIDs_loop_frame:
  "allocTaskIDs_loop cfg env n w acc = (res, w') \<Longrightarrow>
   maxReadLevel w' = maxReadLevel w \<and> stopped w' = stopped w
   \<and> stopCh_closed w' = stopCh_closed w \<and> appendCh w' = appendCh w
   \<and> appendCh_cap w' = appendCh_cap w \<and> db_createTasks w' = db_createTasks w
   \<and> sent w' = sent w"
proof (induction n arbitrary: w acc)
  case 0
  then show ?case by auto
next
  case (Suc n)
  let ?b = "taskIDBlock w"
  show ?case
  proof (cases "end_id ?b <s start ?b")
    case False
    with Suc.prems Suc.IH [of "w\<lparr>taskIDBlock := ?b\<lparr>start := start ?b + 1\<rparr>\<rparr>" "acc @ [start ?b]"]
    show ?thesis by simp
  next
    case True
    obtain r wr where a: "allocTaskIDBlock cfg env (end_id ?b) w = (r, wr)"
      by (cases "allocTaskIDBlock cfg env (end_id ?b) w")
    from allocTaskIDBlock_cases [OF a] show ?thesis
    proof (elim disjE conjE exE)
      assume "r = Inl InvalidBlockState" "wr = w"
      with Suc.prems True a show ?thesis by auto
    next
      fix e assume "r = Inl e" "RenewLease_outcome env (db_renewals w) = Inl e"
        "wr = w\<lparr>db_renewals := Suc (db_renewals w), tlMgr_stopped := True\<rparr>"
      with Suc.prems True a show ?thesis by auto
    next
      let ?nb = "rangeIDToTaskIDBlock (db_rangeID w + 1) (RangeSize cfg)"
      assume r: "r = Inr ?nb"
        and wr: "wr = w\<lparr>db_rangeID := db_rangeID w + 1, db_renewals := Suc (db_renewals w)\<rparr>"
      with Suc.prems True a
      have "allocTaskIDs_loop cfg env n (wr\<lparr>taskIDBlock := ?nb\<lparr>start := start ?nb + 1\<rparr>\<rparr>)
              (acc @ [start ?nb]) = (res, w')" by simp
      from Suc.IH [OF this] show ?thesis by (simp add: wr)
    qed
  qed
qed

text \<open>The body of the loop, by the result of the allocation.\<close>

lemma taskWriterLoop_request_cases:
  assumes "taskWriterLoop_request cfg env request w = w'"
  obtains (alloc_failed) reqs w1 e w2 where
      "getWriteBatch cfg [request] w = (reqs, w1)"
      "allocTaskIDs cfg env (length reqs) w1 = (Inl e, w2)"
      "w' = sendWriteResponse reqs (Some e) None w2"
    | (committed) reqs w1 ids w2 r e where
      "getWriteBatch cfg [request] w = (reqs, w1)"
      "allocTaskIDs cfg env (length reqs) w1 = (Inr ids, w2)"
      "ids \<noteq> []"
      "w' = sendWriteResponse reqs (handleErr env e) r
             ((if 0 <s last ids
               then (\<lambda>v. v\<lparr>maxReadLevel := last ids\<rparr>) else (\<lambda>v. v))
              (w2\<lparr>db_createTasks := db_createTasks w2 @ [(ids, e)]\<rparr>))"
proof -
  obtain reqs w1 where g: "getWriteBatch cfg [request] w = (reqs, w1)"
    by (cases "getWriteBatch cfg [request] w")
  then have ne: "reqs \<noteq> []" by (auto simp: getWriteBatch_eq)
  obtain res w2 where al: "allocTaskIDs cfg env (length reqs) w1 = (res, w2)"
    by (cases "allocTaskIDs cfg env (length reqs) w1")
  show thesis
  proof (cases res)
    case (Inl e)
    with assms g al have "w' = sendWriteResponse reqs (Some e) None w2"
      by (simp add: taskWriterLoop_request_def)
    with g al Inl show thesis by (intro alloc_failed) simp_all
  next
    case (Inr ids)
    from al have "allocTaskIDs_loop cfg env (length reqs) w1 [] = (res, w2)"
      by (simp add: allocTaskIDs_def)
    from allocTaskIDs_loop_length [OF this] Inr have len: "length ids = length reqs" by simp
    with ne have idne: "ids \<noteq> []" by auto
    let ?tasks = "map (\<lambda>i. \<lparr>TaskID = ids ! i, Execution = execution (reqs ! i),
                           Data = taskInfo (reqs ! i)\<rparr>) [0..<length reqs]"
    have "map TaskID ?tasks = map (\<lambda>i. ids ! i) [0..<length ids]"
      using len by (simp add: comp_def)
    then have tid: "map TaskID ?tasks = ids"
      by (simp only: map_nth)
    have lst: "foldl (\<lambda>m i. ids ! i) 0 [0..<length reqs] = last ids"
      using len idne ne by (simp add: foldl_last_index last_conv_nth)
    obtain r e where ct: "CreateTasks env ?tasks = (r, e)"
      by (cases "CreateTasks env ?tasks")
    have "w' = sendWriteResponse reqs (handleErr env e) r
             ((if 0 <s last ids
               then (\<lambda>v. v\<lparr>maxReadLevel := last ids\<rparr>) else (\<lambda>v. v))
              (w2\<lparr>db_createTasks := db_createTasks w2 @ [(ids, e)]\<rparr>))"
      using assms unfolding taskWriterLoop_request_def Let_def g al Inr prod.case sum.case ct tid lst
      by (simp split: if_splits)
    with g al Inr idne show thesis by (intro committed) simp_all
  qed
qed

lemma sendWriteResponse_fields [simp]:
  "maxReadLevel (sendWriteResponse reqs e r w) = maxReadLevel w"
  "stopped (sendWriteResponse reqs e r w) = stopped w"
  "stopCh_closed (sendWriteResponse reqs e r w) = stopCh_closed w"
  "appendCh (sendWriteResponse reqs e r w) = appendCh w"
  "appendCh_cap (sendWriteResponse reqs e r w) = appendCh_cap w"
  "db_createTasks (sendWriteResponse reqs e r w) = db_createTasks w"
  "taskIDBlock (sendWriteResponse reqs e r w) = taskIDBlock w"
  "db_rangeID (sendWriteResponse reqs e r w) = db_rangeID w"
  by (simp_all add: sendWriteResponse_def)

lemma no_overflow_sendWriteResponse [simp]:
  "no_overflow cfg B (sendWriteResponse reqs e r w) = no_overflow cfg B w"
  by (simp add: no_overflow_def)

lemma frontier_sendWriteResponse [simp]:
  "frontier (sendWriteResponse reqs e r w) = frontier w"
  by (simp add: frontier_def)

lemma allocTaskIDs_frame:
  assumes "allocTaskIDs cfg env n w = (res, w')"
  shows "maxReadLevel w' = maxReadLevel w" "stopped w' = stopped w"
    "stopCh_closed w' = stopCh_closed w" "appendCh w' = appendCh w"
    "appendCh_cap w' = appendCh_cap w" "db_createTasks w' = db_createTasks w"
  using allocTaskIDs_loop_frame [of cfg env n w "[]" res w'] assms
  by (simp_all add: allocTaskIDs_def)

text \<open>What one pass of the loop body does to the flag, the channels and the level.\<close>

lemma taskWriterLoop_request_frame:
  assumes a: "taskWriterLoop_request cfg env request w = w'"
  shows "stopped w' = stopped w \<and> stopCh_closed w' = stopCh_closed w
    \<and> appendCh_cap w' = appendCh_cap w
    \<and> appendCh w' = drop (nat (MaxTaskBatchSize cfg)) (appendCh w)"
proof (rule taskWriterLoop_request_cases [OF a])
  fix reqs w1 e w2
  assume g: "getWriteBatch cfg [request] w = (reqs, w1)"
    and al: "allocTaskIDs cfg env (length reqs) w1 = (Inl e, w2)"
    and w': "w' = sendWriteResponse reqs (Some e) None w2"
  from g have w1: "w1 = w\<lparr>appendCh := drop (nat (MaxTaskBatchSize cfg)) (appendCh w)\<rparr>"
    by (simp add: getWriteBatch_eq)
  from allocTaskIDs_frame [OF al] w' w1 show ?thesis by simp
next
  fix reqs w1 ids w2 r e
  assume g: "getWriteBatch cfg [request] w = (reqs, w1)"
    and al: "allocTaskIDs cfg env (length reqs) w1 = (Inr ids, w2)"
    and w': "w' = sendWriteResponse reqs (handleErr env e) r
             ((if 0 <s last ids
               then (\<lambda>v. v\<lparr>maxReadLevel := last ids\<rparr>) else (\<lambda>v. v))
              (w2\<lparr>db_createTasks := db_createTasks w2 @ [(ids, e)]\<rparr>))"
  from g have w1: "w1 = w\<lparr>appendCh := drop (nat (MaxTaskBatchSize cfg)) (appendCh w)\<rparr>"
    by (simp add: getWriteBatch_eq)
  from allocTaskIDs_frame [OF al] w' w1 show ?thesis by simp
qed

lemma taskWriterLoop_turn_cases:
  assumes "taskWriterLoop_turn cfg env preferStop w = (c, w')"
  shows "w' = w
    \<or> (\<exists>request ch. appendCh w = request # ch
          \<and> w' = taskWriterLoop_request cfg env request (w\<lparr>appendCh := ch\<rparr>))"
  using assms by (auto simp: taskWriterLoop_turn_def split: list.splits if_splits)

lemma taskWriter_step_cases:
  assumes "taskWriter_step cfg env ev (running, w) = Inr (running', w')"
  shows "(\<exists>exec info ch wk. ev = AppendTask exec info ch wk
            \<and> w' = snd (appendTask exec info ch wk w))
    \<or> (ev = StopCall \<and> Stop w = Inr w')
    \<or> (\<exists>preferStop. ev = LoopTurn preferStop
          \<and> (w' = w
              \<or> (\<exists>request ch. appendCh w = request # ch
                    \<and> w' = taskWriterLoop_request cfg env request (w\<lparr>appendCh := ch\<rparr>))))"
proof (cases ev)
  case (AppendTask exec info ch wk)
  with assms show ?thesis by (simp add: taskWriter_step_def)
next
  case StopCall
  with assms show ?thesis by (simp add: taskWriter_step_def split: sum.splits)
next
  case (LoopTurn preferStop)
  show ?thesis
  proof (cases running)
    case True
    with assms LoopTurn have "taskWriterLoop_turn cfg env preferStop w = (running', w')"
      by (simp add: taskWriter_step_def)
    from taskWriterLoop_turn_cases [OF this] LoopTurn show ?thesis by simp
  next
    case False
    with assms LoopTurn show ?thesis by (simp add: taskWriter_step_def)
  qed
qed

lemma appendTask_state:
  "snd (appendTask exec info ch wk w) = w
   \<or> (\<not> isStopped w \<and> length (appendCh w) < appendCh_cap w
       \<and> snd (appendTask exec info ch wk w) =
           w\<lparr>appendCh := appendCh w @ [\<lparr>execution = exec, taskInfo = info, responseCh = ch\<rparr>]\<rparr>)"
  by (cases wk) (simp_all add: appendTask_def Let_def)

lemma taskWriter_step_stopped:
  assumes st: "taskWriter_step cfg env ev (running, w) = Inr (running', w')" and "stopped w = 1"
  shows "stopped w' = 1"
proof -
  from taskWriter_step_cases [OF st]
  consider (app) exec info ch wk where "w' = snd (appendTask exec info ch wk w)"
    | (stop) "Stop w = Inr w'"
    | (same) "w' = w"
    | (turn) request ch where "w' = taskWriterLoop_request cfg env request (w\<lparr>appendCh := ch\<rparr>)"
    by blast
  then show ?thesis
  proof cases
    case app
    with assms(2) appendTask_state [of exec info ch wk w] show ?thesis
      by (auto simp: isStopped_def)
  next
    case stop
    with assms(2) show ?thesis by (simp add: Stop_def split: if_splits)
  next
    case same
    with assms(2) show ?thesis by simp
  next
    case turn
    from taskWriterLoop_request_frame [OF turn [symmetric]] assms(2) show ?thesis by simp
  qed
qed

lemma taskWriter_run_stopped:
  "stopped w = 1 \<Longrightarrow> \<forall>s \<in> set (taskWriter_run cfg env evs (running, w)). stopped (snd s) = 1"
proof (induction evs arbitrary: running w)
  case Nil
  then show ?case by simp
next
  case (Cons ev evs)
  show ?case
  proof (cases "taskWriter_step cfg env ev (running, w)")
    case (Inl p)
    with Cons.prems show ?thesis by simp
  next
    case (Inr s')
    obtain running' w' where s': "s' = (running', w')" by (cases s')
    from taskWriter_step_stopped [OF Inr [unfolded s'] Cons.prems] have "stopped w' = 1" .
    from Cons.IH [OF this] Cons.prems Inr s' show ?thesis by simp
  qed
qed

text \<open>
  C9. A stopped writer refuses every append with the shutdown error; once \<open>Stop\<close> has
  been called this holds in every state the writer passes afterwards, whatever is
  interleaved (further appends, further stops, turns of the loop). An append to a writer
  that is not stopped and whose admission queue is full returns the overloaded error at
  once: the state is unchanged and the answer does not depend on any later event. (The
  stop test comes first in the code, so a stopped writer with a full queue answers
  shutdown, as the first rule demands; the capacity is taken positive, as configured.)
  \<open>Stop\<close> is idempotent: a second call returns the writer unchanged, the stop channel is
  not closed a second time, and no call of \<open>Stop\<close> panics on a writer whose stop channel
  is only ever closed by \<open>Stop\<close>.
\<close>

theorem appendTask_refusals_and_Stop:
  "(isStopped w \<longrightarrow> appendTask exec info ch wk w = ((None, Some errShutdown), w))
   \<and> ((stopped w = 0 \<or> stopped w = 1) \<and> Stop w = Inr w1 \<longrightarrow>
        (\<forall>s \<in> set (taskWriter_run cfg env evs (running, w1)).
           appendTask exec info ch wk (snd s) = ((None, Some errShutdown), snd s)))
   \<and> (\<not> isStopped w \<and> 0 < appendCh_cap w \<and> appendCh_cap w \<le> length (appendCh w) \<longrightarrow>
        appendTask exec info ch wk w =
          ((None, Some (createServiceBusyError ''Too many outstanding appends to the TaskList'')),
           w))
   \<and> (Stop w = Inr w1 \<longrightarrow> Stop w1 = Inr w1)
   \<and> ((stopped w = 0 \<longrightarrow> \<not> stopCh_closed w) \<longrightarrow> (\<exists>w1. Stop w = Inr w1))"
proof (intro conjI impI)
  assume "isStopped w"
  then show "appendTask exec info ch wk w = ((None, Some errShutdown), w)"
    by (simp add: appendTask_def)
next
  assume a: "(stopped w = 0 \<or> stopped w = 1) \<and> Stop w = Inr w1"
  then have "stopped w1 = 1" by (auto simp: Stop_def split: if_splits)
  from taskWriter_run_stopped [OF this]
  show "\<forall>s \<in> set (taskWriter_run cfg env evs (running, w1)).
           appendTask exec info ch wk (snd s) = ((None, Some errShutdown), snd s)"
    by (simp add: appendTask_def isStopped_def)
next
  assume "\<not> isStopped w \<and> 0 < appendCh_cap w \<and> appendCh_cap w \<le> length (appendCh w)"
  then show "appendTask exec info ch wk w =
          ((None, Some (createServiceBusyError ''Too many outstanding appends to the TaskList'')),
           w)"
    by (simp add: appendTask_def)
next
  assume "Stop w = Inr w1"
  then show "Stop w1 = Inr w1" by (auto simp: Stop_def split: if_splits)
next
  assume "stopped w = 0 \<longrightarrow> \<not> stopCh_closed w"
  then show "\<exists>w1. Stop w = Inr w1" by (simp add: Stop_def)
qed

lemma taskWriter_run_nonempty: "taskWriter_run cfg env evs s \<noteq> []"
  by (cases evs) (simp_all split: sum.splits)

lemma S1_writer_eq:
  "S1_writer =
    \<lparr>appendCh = [], appendCh_cap = 4, taskIDBlock = \<lparr>start = 1, end_id = 10\<rparr>,
     maxReadLevel = 0, stopped = 0, stopCh_closed = False, db_rangeID = 1, db_renewals = 1,
     taskAckManager_ackLevel = 0, tlMgr_stopped = False, db_createTasks = [], sent = []\<rparr>"
  by (simp add: S1_writer_def S1_cfg_def ok_env_def newTaskWriter_def Start_def
      renewLeaseWithRetry_def db_RenewLease_def rangeIDToTaskIDBlock_def)

theorem appendTask_refusals_and_Stop_witness:
  "Stop S1_writer = Inr (S1_writer\<lparr>stopped := 1, stopCh_closed := True\<rparr>)
   \<and> Stop (S1_writer\<lparr>stopped := 1, stopCh_closed := True\<rparr>) =
       Inr (S1_writer\<lparr>stopped := 1, stopCh_closed := True\<rparr>)
   \<and> fst (appendTask ''E'' ''task'' 7 StopSignal
        (snd (last (taskWriter_run S1_cfg ok_env
           [AppendTask ''E'' ''task'' 5 StopSignal, LoopTurn False, StopCall]
           (True, S1_writer\<lparr>stopped := 1, stopCh_closed := True\<rparr>))))) =
       (None, Some errShutdown)
   \<and> appendTask ''E'' ''task'' 7 StopSignal
        (S1_writer\<lparr>appendCh := [request_on 0, request_on 1, request_on 2, request_on 3]\<rparr>) =
       ((None, Some (createServiceBusyError ''Too many outstanding appends to the TaskList'')),
        S1_writer\<lparr>appendCh := [request_on 0, request_on 1, request_on 2, request_on 3]\<rparr>)"
proof -
  let ?w1 = "S1_writer\<lparr>stopped := 1, stopCh_closed := True\<rparr>"
  let ?full = "S1_writer\<lparr>appendCh := [request_on 0, request_on 1, request_on 2, request_on 3]\<rparr>"
  let ?evs = "[AppendTask ''E'' ''task'' 5 StopSignal, LoopTurn False, StopCall]"
  have flag: "stopped S1_writer = 0 \<or> stopped S1_writer = 1" by (simp add: S1_writer_eq)
  have stop: "Stop S1_writer = Inr ?w1" by (simp add: Stop_def S1_writer_eq)
  have full: "\<not> isStopped ?full \<and> 0 < appendCh_cap ?full
      \<and> appendCh_cap ?full \<le> length (appendCh ?full)"
    by (simp add: isStopped_def S1_writer_eq)
  note t = appendTask_refusals_and_Stop
    [where w = S1_writer and ?w1.0 = ?w1 and cfg = S1_cfg and env = ok_env and evs = ?evs
       and running = True and exec = "''E''" and info = "''task''" and ch = 7 and wk = StopSignal]
  from t stop have again: "Stop ?w1 = Inr ?w1" by blast
  from t flag stop
  have all: "\<forall>s \<in> set (taskWriter_run S1_cfg ok_env ?evs (True, ?w1)).
      appendTask ''E'' ''task'' 7 StopSignal (snd s) = ((None, Some errShutdown), snd s)"
    by blast
  have "last (taskWriter_run S1_cfg ok_env ?evs (True, ?w1))
      \<in> set (taskWriter_run S1_cfg ok_env ?evs (True, ?w1))"
    by (rule last_in_set) (rule taskWriter_run_nonempty)
  with all have after: "fst (appendTask ''E'' ''task'' 7 StopSignal
        (snd (last (taskWriter_run S1_cfg ok_env ?evs (True, ?w1))))) = (None, Some errShutdown)"
    by simp
  from appendTask_refusals_and_Stop
    [where w = ?full and exec = "''E''" and info = "''task''" and ch = 7 and wk = StopSignal]
    full
  have busy: "appendTask ''E'' ''task'' 7 StopSignal ?full =
       ((None, Some (createServiceBusyError ''Too many outstanding appends to the TaskList'')),
        ?full)"
    by blast
  from stop again after busy show ?thesis by blast
qed

text \<open>
  The batch read after a first request: the request and as many further requests as the
  channel holds, up to \<^verbatim>\<open>MaxTaskBatchSize\<close> of them.
\<close>

lemma getWriteBatch_length:
  "length (fst (getWriteBatch cfg reqs w)) =
     length reqs + min (length (appendCh w)) (nat (MaxTaskBatchSize cfg))"
  by (simp add: getWriteBatch_eq min.commute)

text \<open>
  C2. The input at which the code departs from the claim: \<^verbatim>\<open>MaxTaskBatchSize\<close> is 2 and
  three further requests wait in the channel when the loop has received one. The loop
  of \<^verbatim>\<open>getWriteBatch\<close> runs for \<^verbatim>\<open>i = 0, 1\<close> and adds two requests to the one already in
  the batch, so the batch has 3 requests, one more than the maximum; the turn of the
  writer loop hands the three tasks 1, 2, 3 to the store in one commit.
\<close>

theorem getWriteBatch_exceeds_MaxTaskBatchSize:
  "MaxTaskBatchSize S1_cfg = 2
   \<and> length (fst (getWriteBatch S1_cfg [request_on 0]
        (S1_writer\<lparr>appendCh := [request_on 1, request_on 2, request_on 3]\<rparr>))) = 3
   \<and> map fst (db_createTasks (snd (taskWriterLoop_turn S1_cfg ok_env False
        (S1_writer\<lparr>appendCh := [request_on 0, request_on 1, request_on 2, request_on 3]\<rparr>)))) =
       [[1, 2, 3]]"
  by (simp add: S1_writer_eq S1_cfg_def ok_env_def request_on_def getWriteBatch_def
      taskWriterLoop_turn_def taskWriterLoop_request_def allocTaskIDs_def numeral_3_eq_3
      sendWriteResponse_def word_sless_alt Let_def upt_rec [of 0])

section \<open>The published level over a run\<close>

lemma taskWriterLoop_request_props:
  assumes a: "taskWriterLoop_request cfg env request w = w'"
    and no: "no_overflow cfg (Suc (length (appendCh w)) + B) w"
    and lvl: "sint (maxReadLevel w) < frontier w" and pos: "0 < frontier w"
  shows "no_overflow cfg (length (appendCh w') + B) w'
     \<and> sint (maxReadLevel w') < frontier w' \<and> frontier w \<le> frontier w'
     \<and> sint (maxReadLevel w) \<le> sint (maxReadLevel w')
     \<and> ((db_createTasks w' = db_createTasks w \<and> maxReadLevel w' = maxReadLevel w)
        \<or> (\<exists>ids e. ids \<noteq> [] \<and> sorted_wrt (<s) ids \<and> (\<forall>x \<in> set ids. frontier w \<le> sint x)
              \<and> db_createTasks w' = db_createTasks w @ [(ids, e)]
              \<and> maxReadLevel w' = last ids))"
proof -
  let ?k = "nat (MaxTaskBatchSize cfg)"
  let ?w1 = "w\<lparr>appendCh := drop ?k (appendCh w)\<rparr>"
  let ?reqs = "[request] @ take ?k (appendCh w)"
  have g: "getWriteBatch cfg [request] w = (?reqs, ?w1)" by (simp add: getWriteBatch_eq)
  have "length ?reqs + (length (appendCh ?w1) + B) \<le> Suc (length (appendCh w)) + B"
    by simp
  from no_overflow_mono [OF no this]
  have no1: "no_overflow cfg (length ?reqs + (length (appendCh ?w1) + B)) ?w1"
    by (simp add: no_overflow_def)
  have f1: "frontier ?w1 = frontier w" by (simp add: frontier_def)
  show ?thesis
  proof (rule taskWriterLoop_request_cases [OF a])
    fix reqs w1 e w2
    assume g': "getWriteBatch cfg [request] w = (reqs, w1)"
      and al: "allocTaskIDs cfg env (length reqs) w1 = (Inl e, w2)"
      and w': "w' = sendWriteResponse reqs (Some e) None w2"
    from g g' have eq: "reqs = ?reqs" "w1 = ?w1" by simp_all
    from al have l: "allocTaskIDs_loop cfg env (length ?reqs) ?w1 [] = (Inl e, w2)"
      by (simp add: allocTaskIDs_def eq)
    note p = allocTaskIDs_loop_props [OF no1 l]
    note fr = allocTaskIDs_frame [OF al [unfolded eq]]
    from p fr w' f1 lvl show ?thesis by simp
  next
    fix reqs w1 ids w2 r e
    assume g': "getWriteBatch cfg [request] w = (reqs, w1)"
      and al: "allocTaskIDs cfg env (length reqs) w1 = (Inr ids, w2)"
      and ne: "ids \<noteq> []"
      and w': "w' = sendWriteResponse reqs (handleErr env e) r
               ((if 0 <s last ids
                 then (\<lambda>v. v\<lparr>maxReadLevel := last ids\<rparr>) else (\<lambda>v. v))
                (w2\<lparr>db_createTasks := db_createTasks w2 @ [(ids, e)]\<rparr>))"
    from g g' have eq: "reqs = ?reqs" "w1 = ?w1" by simp_all
    from al have l: "allocTaskIDs_loop cfg env (length ?reqs) ?w1 [] = (Inr ids, w2)"
      by (simp add: allocTaskIDs_def eq)
    note p = allocTaskIDs_loop_props [OF no1 l]
    note fr = allocTaskIDs_frame [OF al [unfolded eq]]
    from p have no2: "no_overflow cfg (length (appendCh ?w1) + B) w2"
      and mono: "frontier w \<le> frontier w2"
      and srt: "sorted_wrt (<s) ids"
      and rng: "\<forall>x \<in> set ids. frontier w \<le> sint x \<and> sint x < frontier w2"
      by (simp_all add: f1)
    from ne have "last ids \<in> set ids" by simp
    with rng have lst: "frontier w \<le> sint (last ids)" "sint (last ids) < frontier w2" by simp_all
    with pos have "0 <s last ids" by (simp add: word_sless_alt)
    with w' have w'': "w' = sendWriteResponse reqs (handleErr env e) r
        (w2\<lparr>db_createTasks := db_createTasks w2 @ [(ids, e)], maxReadLevel := last ids\<rparr>)"
      by simp
    have A: "no_overflow cfg (length (appendCh w') + B) w'"
      using no2 fr by (simp add: w'' no_overflow_def)
    have B: "sint (maxReadLevel w') < frontier w'"
      using lst(2) by (simp add: w'' frontier_def)
    have C: "frontier w \<le> frontier w'" using mono by (simp add: w'' frontier_def)
    have D: "sint (maxReadLevel w) \<le> sint (maxReadLevel w')"
      using lvl lst(1) by (simp add: w'')
    have E: "db_createTasks w' = db_createTasks w @ [(ids, e)] \<and> maxReadLevel w' = last ids"
      using fr by (simp add: w'')
    from rng have "\<forall>x \<in> set ids. frontier w \<le> sint x" by simp
    with ne srt E have "\<exists>ids e. ids \<noteq> [] \<and> sorted_wrt (<s) ids
        \<and> (\<forall>x \<in> set ids. frontier w \<le> sint x)
        \<and> db_createTasks w' = db_createTasks w @ [(ids, e)] \<and> maxReadLevel w' = last ids"
      by blast
    with A B C D show ?thesis by blast
  qed
qed

lemma writer_inv_mono: "writer_inv cfg b w \<Longrightarrow> a \<le> b \<Longrightarrow> writer_inv cfg a w"
  unfolding writer_inv_def using no_overflow_mono [of cfg "length (appendCh w) + b" w] by simp

lemma taskWriter_step_inv:
  assumes st: "taskWriter_step cfg env ev (running, w) = Inr (running', w')"
    and inv: "writer_inv cfg (Suc B) w"
  shows "writer_inv cfg B w' \<and> sint (maxReadLevel w) \<le> sint (maxReadLevel w')"
proof -
  from inv have no: "no_overflow cfg (length (appendCh w) + Suc B) w"
    and lt: "sint (maxReadLevel w) < frontier w" and pos: "0 < frontier w"
    by (simp_all add: writer_inv_def)
  from taskWriter_step_cases [OF st]
  consider (app) exec info ch wk where "w' = snd (appendTask exec info ch wk w)"
    | (stop) "Stop w = Inr w'"
    | (same) "w' = w"
    | (turn) request ch where "appendCh w = request # ch"
        "w' = taskWriterLoop_request cfg env request (w\<lparr>appendCh := ch\<rparr>)"
    by blast
  then show ?thesis
  proof cases
    case app
    from appendTask_state [of exec info ch wk w] app
    consider "w' = w"
      | "w' = w\<lparr>appendCh := appendCh w @ [\<lparr>execution = exec, taskInfo = info, responseCh = ch\<rparr>]\<rparr>"
      by auto
    then show ?thesis
    proof cases
      case 1
      with writer_inv_mono [OF inv, of B] show ?thesis by simp
    next
      case 2
      with no lt pos show ?thesis
        by (simp add: writer_inv_def no_overflow_def frontier_def)
    qed
  next
    case stop
    then consider "w' = w" | "w' = w\<lparr>stopped := 1, stopCh_closed := True\<rparr>"
      by (auto simp: Stop_def split: if_splits)
    then show ?thesis
    proof cases
      case 1
      with writer_inv_mono [OF inv, of B] show ?thesis by simp
    next
      case 2
      with writer_inv_mono [OF inv, of B] show ?thesis
        by (simp add: writer_inv_def no_overflow_def frontier_def)
    qed
  next
    case same
    with writer_inv_mono [OF inv, of B] show ?thesis by simp
  next
    case turn
    let ?w0 = "w\<lparr>appendCh := ch\<rparr>"
    have no0: "no_overflow cfg (Suc (length (appendCh ?w0)) + Suc B) ?w0"
      using no turn(1) by (simp add: no_overflow_def)
    have lt0: "sint (maxReadLevel ?w0) < frontier ?w0" using lt by (simp add: frontier_def)
    have pos0: "0 < frontier ?w0" using pos by (simp add: frontier_def)
    note p = taskWriterLoop_request_props [OF turn(2) [symmetric] no0 lt0 pos0]
    from p have no': "no_overflow cfg (length (appendCh w') + Suc B) w'" by simp
    have A: "writer_inv cfg B w'"
      using no_overflow_mono [OF no', of "length (appendCh w') + B"] p pos0
      by (simp add: writer_inv_def)
    have Bm: "sint (maxReadLevel w) \<le> sint (maxReadLevel w')" using p by simp
    from A Bm show ?thesis by blast
  qed
qed

lemma taskWriter_run_inv:
  "writer_inv cfg (length evs) w \<Longrightarrow>
   (\<forall>s \<in> set (taskWriter_run cfg env evs (running, w)).
      sint (maxReadLevel w) \<le> sint (maxReadLevel (snd s)))
   \<and> sorted_wrt (\<lambda>s s'. maxReadLevel (snd s) \<le>s maxReadLevel (snd s'))
        (taskWriter_run cfg env evs (running, w))"
proof (induction evs arbitrary: running w)
  case Nil
  then show ?case by simp
next
  case (Cons ev evs)
  show ?case
  proof (cases "taskWriter_step cfg env ev (running, w)")
    case (Inl p)
    then show ?thesis by simp
  next
    case (Inr s')
    obtain running' w' where s': "s' = (running', w')" by (cases s')
    from Cons.prems have inv: "writer_inv cfg (Suc (length evs)) w" by simp
    note st = taskWriter_step_inv [OF Inr [unfolded s'] inv]
    then have inv': "writer_inv cfg (length evs) w'" by simp
    note ih = Cons.IH [OF inv', of running']
    have all: "\<forall>s \<in> set (taskWriter_run cfg env evs (running', w')).
      sint (maxReadLevel w) \<le> sint (maxReadLevel (snd s))"
    proof
      fix s assume "s \<in> set (taskWriter_run cfg env evs (running', w'))"
      with ih have "sint (maxReadLevel w') \<le> sint (maxReadLevel (snd s))"
        by blast
      with st show "sint (maxReadLevel w) \<le> sint (maxReadLevel (snd s))"
        by auto
    qed
    have run: "taskWriter_run cfg env (ev # evs) (running, w) =
        (running, w) # taskWriter_run cfg env evs (running', w')"
      using Inr s' by simp
    show ?thesis
      unfolding run using all ih by (simp add: word_sle_eq)
  qed
qed

lemma Start_writer_inv:
  assumes st: "Start cfg env w0 = (None, w)"
    and R: "0 < sint (RangeSize cfg)" and k: "0 \<le> sint (db_rangeID w0)"
    and bud: "(sint (db_rangeID w0) + 1 + int (length (appendCh w0)) + int B)
                * sint (RangeSize cfg) \<le> 2 ^ 63 - 2"
  shows "writer_inv cfg B w \<and> db_createTasks w = db_createTasks w0"
proof -
  let ?R = "sint (RangeSize cfg)"
  let ?k = "sint (db_rangeID w0)"
  let ?b = "rangeIDToTaskIDBlock (db_rangeID w0 + 1) (RangeSize cfg)"
  from st obtain ack where
    w: "w = w0\<lparr>db_rangeID := db_rangeID w0 + 1, db_renewals := Suc (db_renewals w0),
               taskAckManager_ackLevel := ack, taskIDBlock := ?b,
               maxReadLevel := start ?b - 1\<rparr>"
    by (auto simp: Start_def renewLeaseWithRetry_def db_RenewLease_def Let_def
        split: sum.splits prod.splits)
  have bud': "(?k + int (Suc (length (appendCh w0) + B))) * ?R \<le> 2 ^ 63 - 2"
    using bud by (simp add: algebra_simps)
  have kR: "?k * ?R \<le> 2 ^ 63 - 2" using budget_mono [OF R k bud', of 0] by simp
  have k1R: "(?k + 1) * ?R \<le> 2 ^ 63 - 2" using budget_mono [OF R k bud', of 1] by simp
  have kk: "?k \<le> ?k * ?R" using le_mult_self [OF R k] .
  have sk1: "sint (db_rangeID w0 + 1) = ?k + 1"
    using kk kR by (intro sint64_add1) linarith
  have k1: "0 \<le> sint (db_rangeID w0 + 1)" using k sk1 by simp
  have k1R': "sint (db_rangeID w0 + 1) * ?R \<le> 2 ^ 63 - 2" using k1R sk1 by simp
  have e: "sint (end_id ?b) = (?k + 1) * ?R"
    using block_sint(1) [OF R k1 k1R'] sk1 by simp
  have s: "sint (start ?b) = ?k * ?R + 1"
    using block_sint(2) [OF R k1 k1R'] sk1 by simp
  have nn: "0 \<le> ?k * ?R" using R k by simp
  have m: "sint (start ?b - 1) = ?k * ?R"
    using sint64_sub1 [of "start ?b"] s nn by simp
  have expand: "(?k + 1) * ?R = ?k * ?R + ?R" by (simp add: algebra_simps)
  have f: "frontier w = ?k * ?R + 1"
    using R by (simp add: frontier_def w s e expand)
  have no: "no_overflow cfg (length (appendCh w) + B) w"
    using R k1 bud e k1R sk1 by (simp add: no_overflow_def w algebra_simps)
  show ?thesis
    using no f m nn by (simp add: writer_inv_def) (simp add: w)
qed

text \<open>
  C6. Start a writer and let it run under any interleaving of appends, stops and turns of
  the writer loop. The values \<^verbatim>\<open>maxReadLevel\<close> takes, from the one \<open>Start\<close> sets onwards,
  never decrease (as signed 64-bit numbers): each store writes a value at least as large
  as every value stored before. This is stated for runs in which no \<^verbatim>\<open>int64\<close> operation
  wraps around: the range size is positive, the range ID found at \<open>Start\<close> is not
  negative, and the blocks that the requests queued at \<open>Start\<close> and the events of the run
  can reach lie below the largest \<^verbatim>\<open>int64\<close>.
\<close>

theorem maxReadLevel_monotone:
  assumes "Start cfg env w0 = (None, w)"
    and "0 < sint (RangeSize cfg)" and "0 \<le> sint (db_rangeID w0)"
    and "(sint (db_rangeID w0) + 1 + int (length (appendCh w0)) + int (length evs))
           * sint (RangeSize cfg) \<le> 2 ^ 63 - 2"
  shows "sorted_wrt (\<lambda>s s'. maxReadLevel (snd s) \<le>s maxReadLevel (snd s'))
           (taskWriter_run cfg env evs (True, w))"
proof -
  from Start_writer_inv [OF assms] have "writer_inv cfg (length evs) w" by simp
  from taskWriter_run_inv [OF this] show ?thesis by blast
qed

lemma S1_Start: "Start S1_cfg ok_env (projr (newTaskWriter S1_cfg 0)) = (None, S1_writer)"
  by (simp add: S1_writer_def S1_cfg_def ok_env_def newTaskWriter_def Start_def
      renewLeaseWithRetry_def db_RenewLease_def rangeIDToTaskIDBlock_def)

lemma S1_fresh:
  "db_rangeID (projr (newTaskWriter S1_cfg 0)) = 0"
  "appendCh (projr (newTaskWriter S1_cfg 0)) = []"
  "db_createTasks (projr (newTaskWriter S1_cfg 0)) = []"
  by (simp_all add: S1_cfg_def newTaskWriter_def)

lemmas run_defs =
  taskWriter_step_def appendTask_def isStopped_def Stop_def taskWriterLoop_turn_def
  taskWriterLoop_request_def getWriteBatch_def allocTaskIDs_def allocTaskIDBlock_def
  renewLeaseWithRetry_def db_RenewLease_def rangeIDToTaskIDBlock_def sendWriteResponse_def
  createServiceBusyError_def word_sless_alt Let_def

lemma S1_levels:
  "map (\<lambda>s. maxReadLevel (snd s))
     (taskWriter_run S1_cfg ok_env
        [AppendTask ''E'' ''task'' 0 StopSignal, LoopTurn False,
         AppendTask ''E'' ''task'' 1 StopSignal, AppendTask ''E'' ''task'' 2 StopSignal,
         LoopTurn False]
        (True, S1_writer)) = [0, 0, 1, 1, 1, 3]"
  by (simp add: S1_writer_eq S1_cfg_def ok_env_def run_defs upt_rec [of 0])


theorem maxReadLevel_monotone_witness:
  "Start S1_cfg ok_env (projr (newTaskWriter S1_cfg 0)) = (None, S1_writer)
   \<and> sorted_wrt (\<lambda>s s'. maxReadLevel (snd s) \<le>s maxReadLevel (snd s'))
        (taskWriter_run S1_cfg ok_env
          [AppendTask ''E'' ''task'' 0 StopSignal, LoopTurn False,
           AppendTask ''E'' ''task'' 1 StopSignal, AppendTask ''E'' ''task'' 2 StopSignal,
           LoopTurn False]
          (True, S1_writer))
   \<and> map (\<lambda>s. maxReadLevel (snd s))
        (taskWriter_run S1_cfg ok_env
          [AppendTask ''E'' ''task'' 0 StopSignal, LoopTurn False,
           AppendTask ''E'' ''task'' 1 StopSignal, AppendTask ''E'' ''task'' 2 StopSignal,
           LoopTurn False]
          (True, S1_writer)) = [0, 0, 1, 1, 1, 3]"
proof -
  let ?evs = "[AppendTask ''E'' ''task'' 0 StopSignal, LoopTurn False,
           AppendTask ''E'' ''task'' 1 StopSignal, AppendTask ''E'' ''task'' 2 StopSignal,
           LoopTurn False]"
  have R: "0 < sint (RangeSize S1_cfg)" by (simp add: S1_cfg_def)
  have k: "0 \<le> sint (db_rangeID (projr (newTaskWriter S1_cfg 0)))" by (simp add: S1_fresh)
  have b: "(sint (db_rangeID (projr (newTaskWriter S1_cfg 0))) + 1
             + int (length (appendCh (projr (newTaskWriter S1_cfg 0)))) + int (length ?evs))
           * sint (RangeSize S1_cfg) \<le> 2 ^ 63 - 2"
    unfolding S1_fresh by (simp add: S1_cfg_def)
  from maxReadLevel_monotone [OF S1_Start R k b] S1_Start S1_levels
  show ?thesis by blast
qed

lemma taskWriterLoop_request_states_last:
  "last (taskWriterLoop_request_states cfg env request w) = taskWriterLoop_request cfg env request w"
  by (simp add: taskWriterLoop_request_states_def taskWriterLoop_request_def Let_def
      split: prod.splits sum.splits)

lemma taskWriterLoop_request_states_cases:
  obtains (alloc_failed) reqs w1 e w2 where
      "getWriteBatch cfg [request] w = (reqs, w1)"
      "allocTaskIDs cfg env (length reqs) w1 = (Inl e, w2)"
      "taskWriterLoop_request_states cfg env request w =
         [w1, w2, sendWriteResponse reqs (Some e) None w2]"
    | (committed) reqs w1 ids w2 r e where
      "getWriteBatch cfg [request] w = (reqs, w1)"
      "allocTaskIDs cfg env (length reqs) w1 = (Inr ids, w2)"
      "ids \<noteq> []"
      "taskWriterLoop_request_states cfg env request w =
         [w1, w2, w2\<lparr>db_createTasks := db_createTasks w2 @ [(ids, e)]\<rparr>,
          (if 0 <s last ids
           then (\<lambda>v. v\<lparr>maxReadLevel := last ids\<rparr>) else (\<lambda>v. v))
            (w2\<lparr>db_createTasks := db_createTasks w2 @ [(ids, e)]\<rparr>),
          sendWriteResponse reqs (handleErr env e) r
            ((if 0 <s last ids
              then (\<lambda>v. v\<lparr>maxReadLevel := last ids\<rparr>) else (\<lambda>v. v))
             (w2\<lparr>db_createTasks := db_createTasks w2 @ [(ids, e)]\<rparr>))]"
proof -
  obtain reqs w1 where g: "getWriteBatch cfg [request] w = (reqs, w1)"
    by (cases "getWriteBatch cfg [request] w")
  then have ne: "reqs \<noteq> []" by (auto simp: getWriteBatch_eq)
  obtain res w2 where al: "allocTaskIDs cfg env (length reqs) w1 = (res, w2)"
    by (cases "allocTaskIDs cfg env (length reqs) w1")
  show thesis
  proof (cases res)
    case (Inl e)
    with g al have "taskWriterLoop_request_states cfg env request w =
         [w1, w2, sendWriteResponse reqs (Some e) None w2]"
      by (simp add: taskWriterLoop_request_states_def)
    with g al Inl show thesis by (intro alloc_failed) simp_all
  next
    case (Inr ids)
    from al have "allocTaskIDs_loop cfg env (length reqs) w1 [] = (res, w2)"
      by (simp add: allocTaskIDs_def)
    from allocTaskIDs_loop_length [OF this] Inr have len: "length ids = length reqs" by simp
    with ne have idne: "ids \<noteq> []" by auto
    let ?tasks = "map (\<lambda>i. \<lparr>TaskID = ids ! i, Execution = execution (reqs ! i),
                           Data = taskInfo (reqs ! i)\<rparr>) [0..<length reqs]"
    have "map TaskID ?tasks = map (\<lambda>i. ids ! i) [0..<length ids]"
      using len by (simp add: comp_def)
    then have tid: "map TaskID ?tasks = ids"
      by (simp only: map_nth)
    have lst: "foldl (\<lambda>m i. ids ! i) 0 [0..<length reqs] = last ids"
      using len idne ne by (simp add: foldl_last_index last_conv_nth)
    obtain r e where ct: "CreateTasks env ?tasks = (r, e)"
      by (cases "CreateTasks env ?tasks")
    have "taskWriterLoop_request_states cfg env request w =
         [w1, w2, w2\<lparr>db_createTasks := db_createTasks w2 @ [(ids, e)]\<rparr>,
          (if 0 <s last ids
           then (\<lambda>v. v\<lparr>maxReadLevel := last ids\<rparr>) else (\<lambda>v. v))
            (w2\<lparr>db_createTasks := db_createTasks w2 @ [(ids, e)]\<rparr>),
          sendWriteResponse reqs (handleErr env e) r
            ((if 0 <s last ids
              then (\<lambda>v. v\<lparr>maxReadLevel := last ids\<rparr>) else (\<lambda>v. v))
             (w2\<lparr>db_createTasks := db_createTasks w2 @ [(ids, e)]\<rparr>))]"
      unfolding taskWriterLoop_request_states_def Let_def g al Inr prod.case sum.case ct tid lst
      by (simp split: if_splits)
    with g al Inr idne show thesis by (intro committed) simp_all
  qed
qed

lemma level_within_commit_calls_cong:
  "maxReadLevel v = maxReadLevel w \<Longrightarrow> db_createTasks v = db_createTasks w \<Longrightarrow>
   level_within_commit_calls m0 v = level_within_commit_calls m0 w"
  by (simp add: level_within_commit_calls_def)

lemma level_within_commit_calls_logged:
  "level_within_commit_calls m0 w \<Longrightarrow> maxReadLevel v = maxReadLevel w \<Longrightarrow>
   db_createTasks v = db_createTasks w @ [b] \<Longrightarrow> level_within_commit_calls m0 v"
  by (auto simp: level_within_commit_calls_def)

lemma level_within_commit_calls_stored:
  "db_createTasks v = l @ [(ids, e)] \<Longrightarrow> ids \<noteq> [] \<Longrightarrow> maxReadLevel v = last ids \<Longrightarrow>
   level_within_commit_calls m0 v"
proof -
  assume a: "db_createTasks v = l @ [(ids, e)]" "ids \<noteq> []" "maxReadLevel v = last ids"
  then have "(ids, e) \<in> set (db_createTasks v)" "last ids \<in> set (fst (ids, e))" by simp_all
  moreover have "maxReadLevel v \<le>s last ids" using a by simp
  ultimately show ?thesis unfolding level_within_commit_calls_def by blast
qed

text \<open>The bound holds in every state the body of the loop passes through.\<close>

lemma level_within_commit_calls_states:
  assumes lv: "level_within_commit_calls m0 w"
  shows "\<forall>v \<in> set (taskWriterLoop_request_states cfg env request w).
           level_within_commit_calls m0 v"
proof (rule taskWriterLoop_request_states_cases
    [where cfg = cfg and env = env and request = request and w = w])
  fix reqs w1 e w2
  assume g: "getWriteBatch cfg [request] w = (reqs, w1)"
    and al: "allocTaskIDs cfg env (length reqs) w1 = (Inl e, w2)"
    and s: "taskWriterLoop_request_states cfg env request w =
         [w1, w2, sendWriteResponse reqs (Some e) None w2]"
  from g have w1: "w1 = w\<lparr>appendCh := drop (nat (MaxTaskBatchSize cfg)) (appendCh w)\<rparr>"
    by (simp add: getWriteBatch_eq)
  have l1: "level_within_commit_calls m0 w1"
    using lv by (simp add: w1 level_within_commit_calls_def)
  have l2: "level_within_commit_calls m0 w2"
    using l1 allocTaskIDs_frame [OF al] by (simp add: level_within_commit_calls_def)
  have l3: "level_within_commit_calls m0 (sendWriteResponse reqs (Some e) None w2)"
    using l2 by (simp add: level_within_commit_calls_def)
  from l1 l2 l3 show ?thesis unfolding s by simp
next
  fix reqs w1 ids w2 r e
  assume g: "getWriteBatch cfg [request] w = (reqs, w1)"
    and al: "allocTaskIDs cfg env (length reqs) w1 = (Inr ids, w2)"
    and ne: "ids \<noteq> []"
    and s: "taskWriterLoop_request_states cfg env request w =
         [w1, w2, w2\<lparr>db_createTasks := db_createTasks w2 @ [(ids, e)]\<rparr>,
          (if 0 <s last ids
           then (\<lambda>v. v\<lparr>maxReadLevel := last ids\<rparr>) else (\<lambda>v. v))
            (w2\<lparr>db_createTasks := db_createTasks w2 @ [(ids, e)]\<rparr>),
          sendWriteResponse reqs (handleErr env e) r
            ((if 0 <s last ids
              then (\<lambda>v. v\<lparr>maxReadLevel := last ids\<rparr>) else (\<lambda>v. v))
             (w2\<lparr>db_createTasks := db_createTasks w2 @ [(ids, e)]\<rparr>))]"
  let ?w3 = "w2\<lparr>db_createTasks := db_createTasks w2 @ [(ids, e)]\<rparr>"
  let ?w4 = "(if 0 <s last ids
           then (\<lambda>v. v\<lparr>maxReadLevel := last ids\<rparr>) else (\<lambda>v. v)) ?w3"
  from g have w1: "w1 = w\<lparr>appendCh := drop (nat (MaxTaskBatchSize cfg)) (appendCh w)\<rparr>"
    by (simp add: getWriteBatch_eq)
  have l1: "level_within_commit_calls m0 w1"
    using lv by (simp add: w1 level_within_commit_calls_def)
  have l2: "level_within_commit_calls m0 w2"
    using l1 allocTaskIDs_frame [OF al] by (simp add: level_within_commit_calls_def)
  have l3: "level_within_commit_calls m0 ?w3"
    by (rule level_within_commit_calls_logged [OF l2]) simp_all
  have l4: "level_within_commit_calls m0 ?w4"
  proof (cases "0 <s last ids")
    case True
    have "level_within_commit_calls m0 (?w3\<lparr>maxReadLevel := last ids\<rparr>)"
      by (rule level_within_commit_calls_stored [where l = "db_createTasks w2" and ids = ids and e = e])
        (simp_all add: ne)
    with True show ?thesis by simp
  next
    case False
    with l3 show ?thesis by simp
  qed
  have l5: "level_within_commit_calls m0 (sendWriteResponse reqs (handleErr env e) r ?w4)"
    using l4 by (simp add: level_within_commit_calls_def)
  from l1 l2 l3 l4 l5 show ?thesis unfolding s by simp
qed

lemma level_within_commit_calls_step:
  assumes st: "taskWriter_step cfg env ev (running, w) = Inr (running', w')"
    and lv: "level_within_commit_calls m0 w"
  shows "level_within_commit_calls m0 w'"
proof -
  from taskWriter_step_cases [OF st]
  consider (app) exec info ch wk where "w' = snd (appendTask exec info ch wk w)"
    | (stop) "Stop w = Inr w'"
    | (same) "w' = w"
    | (turn) request ch where "appendCh w = request # ch"
        "w' = taskWriterLoop_request cfg env request (w\<lparr>appendCh := ch\<rparr>)"
    by blast
  then show ?thesis
  proof cases
    case app
    from appendTask_state [of exec info ch wk w] app
    consider "w' = w"
      | "w' = w\<lparr>appendCh := appendCh w @ [\<lparr>execution = exec, taskInfo = info, responseCh = ch\<rparr>]\<rparr>"
      by auto
    then show ?thesis using lv by cases (simp_all add: level_within_commit_calls_def)
  next
    case stop
    then consider "w' = w" | "w' = w\<lparr>stopped := 1, stopCh_closed := True\<rparr>"
      by (auto simp: Stop_def split: if_splits)
    then show ?thesis using lv by cases (simp_all add: level_within_commit_calls_def)
  next
    case same
    with lv show ?thesis by simp
  next
    case turn
    let ?w0 = "w\<lparr>appendCh := ch\<rparr>"
    have l0: "level_within_commit_calls m0 ?w0"
      using lv by (simp add: level_within_commit_calls_def)
    have "taskWriterLoop_request_states cfg env request ?w0 \<noteq> []"
      by (rule taskWriterLoop_request_states_cases
          [where cfg = cfg and env = env and request = request and w = ?w0]) simp_all
    then have "last (taskWriterLoop_request_states cfg env request ?w0)
        \<in> set (taskWriterLoop_request_states cfg env request ?w0)" by (rule last_in_set)
    with level_within_commit_calls_states [OF l0, of cfg env request]
    have "level_within_commit_calls m0 (last (taskWriterLoop_request_states cfg env request ?w0))"
      by blast
    then show ?thesis by (simp add: taskWriterLoop_request_states_last turn(2))
  qed
qed

lemma level_within_commit_calls_run:
  "level_within_commit_calls m0 w \<Longrightarrow>
   \<forall>s \<in> set (taskWriter_run cfg env evs (running, w)). level_within_commit_calls m0 (snd s)"
proof (induction evs arbitrary: running w)
  case Nil
  then show ?case by simp
next
  case (Cons ev evs)
  show ?case
  proof (cases "taskWriter_step cfg env ev (running, w)")
    case (Inl p)
    with Cons.prems show ?thesis by simp
  next
    case (Inr s')
    obtain running' w' where s': "s' = (running', w')" by (cases s')
    from level_within_commit_calls_step [OF Inr [unfolded s'] Cons.prems]
    have "level_within_commit_calls m0 w'" .
    from Cons.IH [OF this, of running'] Cons.prems Inr s' show ?thesis by simp
  qed
qed

text \<open>
  C1, as the claim states it: when the commit returns an error the level would be left
  unchanged. It is not. The writer of scenario S1 has level 0 after \<open>Start\<close>; the loop
  receives one request, allocates task ID 1 and hands the task to a store that fails the
  commit; the level is 1 afterwards, though no commit has succeeded.
\<close>

theorem maxReadLevel_set_on_failed_commit_counterexample:
  "maxReadLevel S1_writer = 0
   \<and> CreateTasks failing_store_env [\<lparr>TaskID = 1, Execution = ''E'', Data = ''task''\<rparr>] =
       (None, Some (External ''persistence failure''))
   \<and> db_createTasks (taskWriterLoop_request S1_cfg failing_store_env (request_on 0) S1_writer) =
       [([1], Some (External ''persistence failure''))]
   \<and> maxReadLevel (taskWriterLoop_request S1_cfg failing_store_env (request_on 0) S1_writer) = 1"
  by (simp add: S1_writer_eq S1_cfg_def failing_store_env_def request_on_def run_defs)

text \<open>
  C1, amended. For every batch processed by the writer loop: when the allocation of its
  task IDs fails, no commit is attempted and the level is left unchanged; otherwise the
  batch is handed to the store with the IDs allocated and, once that call has returned,
  whatever it returned, the level is set to the last ID of the batch if that ID is
  positive (and left unchanged if not). Between the return of the commit call and the
  store to the level, the level is still the one from before the batch.

  So at every time, the level is still the value it had at the beginning, or it is at most
  the highest task ID among the commit calls that have returned by then, successful or
  not. This holds in every state of a run of the writer from any state, under any
  interleaving of appends, stops and turns of the loop, and in every state the body of
  the loop passes through during a turn taken from such a state: after the batch is
  read, after the allocation, after the commit call has returned, after the store to the
  level, and after the responses are sent.
\<close>

theorem maxReadLevel_follows_commit_calls:
  "(case allocTaskIDs cfg env (length (fst (getWriteBatch cfg [request] w)))
           (snd (getWriteBatch cfg [request] w)) of
      (Inl e, w2) \<Rightarrow>
        db_createTasks (taskWriterLoop_request cfg env request w) = db_createTasks w
        \<and> maxReadLevel (taskWriterLoop_request cfg env request w) = maxReadLevel w
    | (Inr ids, w2) \<Rightarrow>
        ids \<noteq> []
        \<and> (\<exists>e. db_createTasks (taskWriterLoop_request cfg env request w) =
                 db_createTasks w @ [(ids, e)]
               \<and> db_createTasks (taskWriterLoop_request_states cfg env request w ! 2) =
                   db_createTasks w @ [(ids, e)])
        \<and> maxReadLevel (taskWriterLoop_request_states cfg env request w ! 2) = maxReadLevel w
        \<and> maxReadLevel (taskWriterLoop_request cfg env request w) =
            (if 0 <s last ids then last ids else maxReadLevel w))
   \<and> last (taskWriterLoop_request_states cfg env request w) =
       taskWriterLoop_request cfg env request w
   \<and> (\<forall>s \<in> set (taskWriter_run cfg env evs (running, w0)).
        level_within_commit_calls (maxReadLevel w0) (snd s)
        \<and> (\<forall>req ch. appendCh (snd s) = req # ch \<longrightarrow>
             (\<forall>v \<in> set (taskWriterLoop_request_states cfg env req ((snd s)\<lparr>appendCh := ch\<rparr>)).
                level_within_commit_calls (maxReadLevel w0) v)))"
proof (intro conjI)
  let ?w' = "taskWriterLoop_request cfg env request w"
  let ?mid = "taskWriterLoop_request_states cfg env request w ! 2"
  show "case allocTaskIDs cfg env (length (fst (getWriteBatch cfg [request] w)))
           (snd (getWriteBatch cfg [request] w)) of
      (Inl e, w2) \<Rightarrow>
        db_createTasks ?w' = db_createTasks w \<and> maxReadLevel ?w' = maxReadLevel w
    | (Inr ids, w2) \<Rightarrow>
        ids \<noteq> []
        \<and> (\<exists>e. db_createTasks ?w' = db_createTasks w @ [(ids, e)]
               \<and> db_createTasks ?mid = db_createTasks w @ [(ids, e)])
        \<and> maxReadLevel ?mid = maxReadLevel w
        \<and> maxReadLevel ?w' = (if 0 <s last ids then last ids else maxReadLevel w)"
  proof (rule taskWriterLoop_request_states_cases
      [where cfg = cfg and env = env and request = request and w = w])
    fix reqs w1 e w2
    assume g: "getWriteBatch cfg [request] w = (reqs, w1)"
      and al: "allocTaskIDs cfg env (length reqs) w1 = (Inl e, w2)"
      and s: "taskWriterLoop_request_states cfg env request w =
         [w1, w2, sendWriteResponse reqs (Some e) None w2]"
    from taskWriterLoop_request_states_last [of cfg env request w]
    have w': "?w' = sendWriteResponse reqs (Some e) None w2" unfolding s by simp
    from g have w1: "w1 = w\<lparr>appendCh := drop (nat (MaxTaskBatchSize cfg)) (appendCh w)\<rparr>"
      by (simp add: getWriteBatch_eq)
    from allocTaskIDs_frame [OF al] w1
    have "db_createTasks ?w' = db_createTasks w \<and> maxReadLevel ?w' = maxReadLevel w"
      by (simp add: w')
    then show ?thesis by (simp add: g al)
  next
    fix reqs w1 ids w2 r e
    assume g: "getWriteBatch cfg [request] w = (reqs, w1)"
      and al: "allocTaskIDs cfg env (length reqs) w1 = (Inr ids, w2)"
      and ne: "ids \<noteq> []"
      and s: "taskWriterLoop_request_states cfg env request w =
         [w1, w2, w2\<lparr>db_createTasks := db_createTasks w2 @ [(ids, e)]\<rparr>,
          (if 0 <s last ids
           then (\<lambda>v. v\<lparr>maxReadLevel := last ids\<rparr>) else (\<lambda>v. v))
            (w2\<lparr>db_createTasks := db_createTasks w2 @ [(ids, e)]\<rparr>),
          sendWriteResponse reqs (handleErr env e) r
            ((if 0 <s last ids
              then (\<lambda>v. v\<lparr>maxReadLevel := last ids\<rparr>) else (\<lambda>v. v))
             (w2\<lparr>db_createTasks := db_createTasks w2 @ [(ids, e)]\<rparr>))]"
    from taskWriterLoop_request_states_last [of cfg env request w]
    have w': "?w' = sendWriteResponse reqs (handleErr env e) r
            ((if 0 <s last ids
              then (\<lambda>v. v\<lparr>maxReadLevel := last ids\<rparr>) else (\<lambda>v. v))
             (w2\<lparr>db_createTasks := db_createTasks w2 @ [(ids, e)]\<rparr>))"
      unfolding s by simp
    have mid: "?mid = w2\<lparr>db_createTasks := db_createTasks w2 @ [(ids, e)]\<rparr>"
      unfolding s by simp
    from g have w1: "w1 = w\<lparr>appendCh := drop (nat (MaxTaskBatchSize cfg)) (appendCh w)\<rparr>"
      by (simp add: getWriteBatch_eq)
    from allocTaskIDs_frame [OF al] w1
    have a: "db_createTasks ?w' = db_createTasks w @ [(ids, e)]"
      and b: "maxReadLevel ?w' = (if 0 <s last ids then last ids else maxReadLevel w)"
      and c: "db_createTasks ?mid = db_createTasks w @ [(ids, e)]"
      and d: "maxReadLevel ?mid = maxReadLevel w"
      by (simp_all add: w' mid)
    from a c have "\<exists>e. db_createTasks ?w' = db_createTasks w @ [(ids, e)]
               \<and> db_createTasks ?mid = db_createTasks w @ [(ids, e)]" by blast
    with ne b d show ?thesis unfolding g al fst_conv snd_conv prod.case sum.case by blast
  qed
next
  show "last (taskWriterLoop_request_states cfg env request w) =
       taskWriterLoop_request cfg env request w"
    by (rule taskWriterLoop_request_states_last)
next
  have l0: "level_within_commit_calls (maxReadLevel w0) w0"
    by (simp add: level_within_commit_calls_def)
  show "\<forall>s \<in> set (taskWriter_run cfg env evs (running, w0)).
        level_within_commit_calls (maxReadLevel w0) (snd s)
        \<and> (\<forall>req ch. appendCh (snd s) = req # ch \<longrightarrow>
             (\<forall>v \<in> set (taskWriterLoop_request_states cfg env req ((snd s)\<lparr>appendCh := ch\<rparr>)).
                level_within_commit_calls (maxReadLevel w0) v))"
  proof (intro ballI conjI allI impI)
    fix s assume "s \<in> set (taskWriter_run cfg env evs (running, w0))"
    with level_within_commit_calls_run [OF l0, of cfg env evs running]
    show ls: "level_within_commit_calls (maxReadLevel w0) (snd s)" by blast
    fix req ch v
    assume "v \<in> set (taskWriterLoop_request_states cfg env req ((snd s)\<lparr>appendCh := ch\<rparr>))"
    moreover have "level_within_commit_calls (maxReadLevel w0) ((snd s)\<lparr>appendCh := ch\<rparr>)"
      using ls by (simp add: level_within_commit_calls_def)
    ultimately show "level_within_commit_calls (maxReadLevel w0) v"
      using level_within_commit_calls_states by blast
  qed
qed

lemma S1_failing_run_last:
  "snd (last (taskWriter_run S1_cfg failing_store_env
          [AppendTask ''E'' ''task'' 0 StopSignal, LoopTurn False,
           AppendTask ''E'' ''task'' 1 StopSignal, AppendTask ''E'' ''task'' 2 StopSignal]
          (True, S1_writer))) =
    \<lparr>appendCh = [request_on 1, request_on 2],
     appendCh_cap = 4, taskIDBlock = \<lparr>start = 2, end_id = 10\<rparr>,
     maxReadLevel = 1, stopped = 0, stopCh_closed = False, db_rangeID = 1,
     db_renewals = 1, taskAckManager_ackLevel = 0, tlMgr_stopped = False,
     db_createTasks = [([1], Some (External ''persistence failure''))],
     sent = [(0, \<lparr>err = Some (External ''persistence failure''),
                   persistenceResponse = None\<rparr>)]\<rparr>"
  by (simp add: S1_writer_eq S1_cfg_def failing_store_env_def request_on_def run_defs
      upt_rec [of 0])

lemma S1_failing_mid:
  "taskWriterLoop_request_states S1_cfg failing_store_env (request_on 1)
     \<lparr>appendCh = [request_on 2],
      appendCh_cap = 4, taskIDBlock = \<lparr>start = 2, end_id = 10\<rparr>,
      maxReadLevel = 1, stopped = 0, stopCh_closed = False, db_rangeID = 1,
      db_renewals = 1, taskAckManager_ackLevel = 0, tlMgr_stopped = False,
      db_createTasks = [([1], Some (External ''persistence failure''))],
      sent = [(0, \<lparr>err = Some (External ''persistence failure''),
                    persistenceResponse = None\<rparr>)]\<rparr> ! 2 =
    \<lparr>appendCh = [], appendCh_cap = 4, taskIDBlock = \<lparr>start = 4, end_id = 10\<rparr>,
     maxReadLevel = 1, stopped = 0, stopCh_closed = False, db_rangeID = 1,
     db_renewals = 1, taskAckManager_ackLevel = 0, tlMgr_stopped = False,
     db_createTasks =
       [([1], Some (External ''persistence failure'')),
        ([2, 3], Some (External ''persistence failure''))],
     sent = [(0, \<lparr>err = Some (External ''persistence failure''),
                   persistenceResponse = None\<rparr>)]\<rparr>"
  "length (taskWriterLoop_request_states S1_cfg failing_store_env (request_on 1)
     \<lparr>appendCh = [request_on 2],
      appendCh_cap = 4, taskIDBlock = \<lparr>start = 2, end_id = 10\<rparr>,
      maxReadLevel = 1, stopped = 0, stopCh_closed = False, db_rangeID = 1,
      db_renewals = 1, taskAckManager_ackLevel = 0, tlMgr_stopped = False,
      db_createTasks = [([1], Some (External ''persistence failure''))],
      sent = [(0, \<lparr>err = Some (External ''persistence failure''),
                    persistenceResponse = None\<rparr>)]\<rparr>) = 5"
  by (simp_all add: taskWriterLoop_request_states_def S1_cfg_def failing_store_env_def
      request_on_def run_defs upt_rec [of 0])

theorem maxReadLevel_follows_commit_calls_witness:
  "maxReadLevel S1_writer = 0
   \<and> maxReadLevel (taskWriterLoop_request_states S1_cfg failing_store_env (request_on 0)
        S1_writer ! 2) = 0
   \<and> maxReadLevel (taskWriterLoop_request S1_cfg failing_store_env (request_on 0) S1_writer) = 1
   \<and> appendCh (snd (last (taskWriter_run S1_cfg failing_store_env
          [AppendTask ''E'' ''task'' 0 StopSignal, LoopTurn False,
           AppendTask ''E'' ''task'' 1 StopSignal, AppendTask ''E'' ''task'' 2 StopSignal]
          (True, S1_writer)))) = [request_on 1, request_on 2]
   \<and> level_within_commit_calls 0
        (taskWriterLoop_request_states S1_cfg failing_store_env (request_on 1)
          ((snd (last (taskWriter_run S1_cfg failing_store_env
             [AppendTask ''E'' ''task'' 0 StopSignal, LoopTurn False,
              AppendTask ''E'' ''task'' 1 StopSignal, AppendTask ''E'' ''task'' 2 StopSignal]
             (True, S1_writer))))\<lparr>appendCh := [request_on 2]\<rparr>) ! 2)
   \<and> maxReadLevel
        (taskWriterLoop_request_states S1_cfg failing_store_env (request_on 1)
          ((snd (last (taskWriter_run S1_cfg failing_store_env
             [AppendTask ''E'' ''task'' 0 StopSignal, LoopTurn False,
              AppendTask ''E'' ''task'' 1 StopSignal, AppendTask ''E'' ''task'' 2 StopSignal]
             (True, S1_writer))))\<lparr>appendCh := [request_on 2]\<rparr>) ! 2) = 1
   \<and> map fst (db_createTasks
        (taskWriterLoop_request_states S1_cfg failing_store_env (request_on 1)
          ((snd (last (taskWriter_run S1_cfg failing_store_env
             [AppendTask ''E'' ''task'' 0 StopSignal, LoopTurn False,
              AppendTask ''E'' ''task'' 1 StopSignal, AppendTask ''E'' ''task'' 2 StopSignal]
             (True, S1_writer))))\<lparr>appendCh := [request_on 2]\<rparr>) ! 2)) = [[1], [2, 3]]"
proof -
  let ?evs = "[AppendTask ''E'' ''task'' 0 StopSignal, LoopTurn False,
           AppendTask ''E'' ''task'' 1 StopSignal, AppendTask ''E'' ''task'' 2 StopSignal]"
  let ?run = "taskWriter_run S1_cfg failing_store_env ?evs (True, S1_writer)"
  let ?s = "last ?run"
  let ?states = "taskWriterLoop_request_states S1_cfg failing_store_env (request_on 1)
          ((snd ?s)\<lparr>appendCh := [request_on 2]\<rparr>)"
  note t = maxReadLevel_follows_commit_calls
    [where cfg = S1_cfg and env = failing_store_env and request = "request_on 0"
       and w = S1_writer and ?w0.0 = S1_writer and running = True and evs = ?evs]
  have z: "maxReadLevel S1_writer = 0" by (simp add: S1_writer_eq)
  have al: "fst (allocTaskIDs S1_cfg failing_store_env
              (length (fst (getWriteBatch S1_cfg [request_on 0] S1_writer)))
              (snd (getWriteBatch S1_cfg [request_on 0] S1_writer))) = Inr [1]"
    by (simp add: S1_writer_eq S1_cfg_def getWriteBatch_def allocTaskIDs_def word_sless_alt)
  obtain w2 where al': "allocTaskIDs S1_cfg failing_store_env
              (length (fst (getWriteBatch S1_cfg [request_on 0] S1_writer)))
              (snd (getWriteBatch S1_cfg [request_on 0] S1_writer)) = (Inr [1], w2)"
    using al by (metis prod.collapse)
  from t have per: "maxReadLevel (taskWriterLoop_request_states S1_cfg failing_store_env
        (request_on 0) S1_writer ! 2) = maxReadLevel S1_writer
    \<and> maxReadLevel (taskWriterLoop_request S1_cfg failing_store_env (request_on 0) S1_writer)
      = (if 0 <s last [1 :: int64] then last [1] else maxReadLevel S1_writer)"
    unfolding al' by simp
  then have mid0: "maxReadLevel (taskWriterLoop_request_states S1_cfg failing_store_env
        (request_on 0) S1_writer ! 2) = 0"
    and one: "maxReadLevel
      (taskWriterLoop_request S1_cfg failing_store_env (request_on 0) S1_writer) = 1"
    by (simp_all add: z word_sless_alt)
  have ch: "appendCh (snd ?s) = [request_on 1, request_on 2]"
    unfolding S1_failing_run_last by simp
  have upd: "(snd ?s)\<lparr>appendCh := [request_on 2]\<rparr> =
     \<lparr>appendCh = [request_on 2],
      appendCh_cap = 4, taskIDBlock = \<lparr>start = 2, end_id = 10\<rparr>,
      maxReadLevel = 1, stopped = 0, stopCh_closed = False, db_rangeID = 1,
      db_renewals = 1, taskAckManager_ackLevel = 0, tlMgr_stopped = False,
      db_createTasks = [([1], Some (External ''persistence failure''))],
      sent = [(0, \<lparr>err = Some (External ''persistence failure''),
                    persistenceResponse = None\<rparr>)]\<rparr>"
    unfolding S1_failing_run_last by simp
  have mem: "?states ! 2 \<in> set ?states"
  proof (rule nth_mem)
    have "length ?states = 5" unfolding upd by (rule S1_failing_mid(2))
    then show "2 < length ?states" by simp
  qed
  have sin: "?s \<in> set ?run"
    by (rule last_in_set) (rule taskWriter_run_nonempty)
  from t have all: "\<forall>s \<in> set ?run.
        level_within_commit_calls (maxReadLevel S1_writer) (snd s)
        \<and> (\<forall>req ch. appendCh (snd s) = req # ch \<longrightarrow>
             (\<forall>v \<in> set (taskWriterLoop_request_states S1_cfg failing_store_env req
                         ((snd s)\<lparr>appendCh := ch\<rparr>)).
                level_within_commit_calls (maxReadLevel S1_writer) v))"
    by blast
  from all sin ch mem
  have "level_within_commit_calls (maxReadLevel S1_writer) (?states ! 2)" by blast
  then have lw: "level_within_commit_calls 0 (?states ! 2)" by (simp only: z)
  have lvl: "maxReadLevel (?states ! 2) = 1"
    and log: "map fst (db_createTasks (?states ! 2)) = [[1], [2, 3]]"
    unfolding upd S1_failing_mid(1) by simp_all
  from z mid0 one ch lw lvl log show ?thesis by blast
qed

end
